theory Spec2Isabelle
  imports Complex_Main
begin

section \<open>JavaScript values used by the squares code\<close>

text \<open>
  A JavaScript string is a sequence of UTF-16 code units; a code unit is modelled as a
  natural number, so that the curly quotes, the no-break space and the full-width comma
  the parser mentions are ordinary elements. \<open>str\<close> turns a literal into code units.

  A finite JavaScript number is modelled by its value, a rational. The value of a
  numeric string is kept exact and compared with the rounding intervals of the digits;
  the arithmetic of the analysis rounds every result to the nearest double, as the
  engine does. In an odds grid a number that is not finite (NaN, an infinity) or an
  array slot that is absent is \<open>None\<close>.
\<close>

type_synonym jsstring = "nat list"

definition str :: "string \<Rightarrow> jsstring" where
  "str s = map of_char s"

datatype axis = Home | Away

datatype error =
    InvalidOdds
  | MalformedDigitAxis axis
  | MalformedBoardShape
  | IncompleteOddsCoverage int int
  | DegenerateProbabilityMass
  | UnderfilledPastedInput
  | IncompleteOwnershipGrid

section \<open>String primitives of the JavaScript library\<close>

text \<open>
  The code units matched by the regular expression class \<^verbatim>\<open>\s\<close> and removed by
  \<^verbatim>\<open>String.prototype.trim\<close>: tab, line feed, vertical tab, form feed, carriage return,
  space, no-break space, the Unicode space separators, the line and paragraph separators
  and the byte order mark.
\<close>

definition isWhiteSpace :: "nat \<Rightarrow> bool" where
  "isWhiteSpace c \<longleftrightarrow>
     c \<in> set [9, 10, 11, 12, 13, 32, 160, 5760, 8232, 8233, 8239, 8287, 12288, 65279]
     \<or> (8192 \<le> c \<and> c \<le> 8202)"

definition trim :: "jsstring \<Rightarrow> jsstring" where
  "trim s = rev (dropWhile isWhiteSpace (rev (dropWhile isWhiteSpace s)))"

text \<open>\<^verbatim>\<open>s.replace(/\s+/g, " ")\<close>: every maximal run of white space becomes one space.\<close>

function collapseWhiteSpace :: "jsstring \<Rightarrow> jsstring" where
  "collapseWhiteSpace [] = []"
| "collapseWhiteSpace (c # cs) =
     (if isWhiteSpace c then 32 # collapseWhiteSpace (dropWhile isWhiteSpace cs)
      else c # collapseWhiteSpace cs)"
  by pat_completeness auto
termination
  by (relation "measure length") (auto simp: less_Suc_eq_le length_dropWhile_le)

text \<open>\<^verbatim>\<open>s.split(d)\<close> for a separator of one code unit: always at least one piece.\<close>

fun splitOn :: "nat \<Rightarrow> jsstring \<Rightarrow> jsstring list" where
  "splitOn d [] = [[]]"
| "splitOn d (c # cs) =
     (if c = d then [] # splitOn d cs
      else (case splitOn d cs of [] \<Rightarrow> [[c]] | p # ps \<Rightarrow> (c # p) # ps))"

definition includesChar :: "jsstring \<Rightarrow> nat \<Rightarrow> bool" where
  "includesChar s c \<longleftrightarrow> c \<in> set s"

definition startsWith :: "jsstring \<Rightarrow> jsstring \<Rightarrow> bool" where
  "startsWith s p \<longleftrightarrow> take (length p) s = p"

definition endsWith :: "jsstring \<Rightarrow> jsstring \<Rightarrow> bool" where
  "endsWith s p \<longleftrightarrow> length p \<le> length s \<and> drop (length s - length p) s = p"

text \<open>\<^verbatim>\<open>s.slice(a, b)\<close> for \<open>0 \<le> a\<close> and \<open>0 \<le> b\<close>.\<close>

definition slice :: "'a list \<Rightarrow> nat \<Rightarrow> nat \<Rightarrow> 'a list" where
  "slice s a b = take (b - a) (drop a s)"

text \<open>\<^verbatim>\<open>s.replace(/```/g, "")\<close>: the fences are found left to right, without overlap.\<close>

fun removeFences :: "jsstring \<Rightarrow> jsstring" where
  "removeFences (a # b # c # cs) =
     (if a = 96 \<and> b = 96 \<and> c = 96 then removeFences cs
      else a # removeFences (b # c # cs))"
| "removeFences cs = cs"

text \<open>
  \<^verbatim>\<open>s.replace(/^\s*\n+/, "")\<close>: the match is the leading white space up to and
  including its last line feed, so the white space that starts the first data line stays.
  \<^verbatim>\<open>s.replace(/\n+\s*$/, "")\<close>: the match starts at the first line feed of the trailing
  white space. \<^verbatim>\<open>s.replace(/\s+$/, "")\<close> removes the trailing white space.
\<close>

definition stripLeadingBlankLines :: "jsstring \<Rightarrow> jsstring" where
  "stripLeadingBlankLines s =
     (let w = takeWhile isWhiteSpace s
      in if 10 \<in> set w
         then rev (takeWhile (\<lambda>c. c \<noteq> 10) (rev w)) @ dropWhile isWhiteSpace s
         else s)"

definition stripTrailingBlankLines :: "jsstring \<Rightarrow> jsstring" where
  "stripTrailingBlankLines s =
     (let t = rev (takeWhile isWhiteSpace (rev s))
      in if 10 \<in> set t
         then rev (dropWhile isWhiteSpace (rev s)) @ takeWhile (\<lambda>c. c \<noteq> 10) t
         else s)"

definition stripTrailingWhiteSpace :: "jsstring \<Rightarrow> jsstring" where
  "stripTrailingWhiteSpace s = rev (dropWhile isWhiteSpace (rev s))"

section \<open>squares-parse: cells, digits and lines\<close>

definition normalizeCell :: "jsstring \<Rightarrow> jsstring" where
  "normalizeCell v = trim (collapseWhiteSpace v)"

text \<open>
  \<^verbatim>\<open>parseCsvLine\<close>: the loop over the characters of a line with its three variables
  \<^verbatim>\<open>cells\<close>, \<^verbatim>\<open>current\<close> and \<^verbatim>\<open>inQuotes\<close>; a doubled quote inside quotes consumes
  two characters.
\<close>

fun parseCsvLoop :: "nat \<Rightarrow> jsstring \<Rightarrow> jsstring list \<Rightarrow> jsstring \<Rightarrow> bool \<Rightarrow> jsstring list" where
  "parseCsvLoop delimiter [] cells current inQuotes = cells @ [current]"
| "parseCsvLoop delimiter (char # rest) cells current inQuotes =
     (if char = 34 then
        (case rest of
           [] \<Rightarrow> parseCsvLoop delimiter rest cells current (\<not> inQuotes)
         | c # rest' \<Rightarrow>
             if inQuotes \<and> c = 34 then parseCsvLoop delimiter rest' cells (current @ [34]) inQuotes
             else parseCsvLoop delimiter rest cells current (\<not> inQuotes))
      else if char = delimiter \<and> \<not> inQuotes then
        parseCsvLoop delimiter rest (cells @ [current]) [] inQuotes
      else parseCsvLoop delimiter rest cells (current @ [char]) inQuotes)"

definition parseCsvLine :: "jsstring \<Rightarrow> nat \<Rightarrow> jsstring list" where
  "parseCsvLine line delimiter = parseCsvLoop delimiter line [] [] False"

text \<open>
  \<^verbatim>\<open>unwrapTextBlock\<close>: the first wrapper pair, in the order of the table, that bounds
  the trimmed text is removed; otherwise only surrounding blank lines are stripped.
  The pairs are the code fence, the curly double quotes, the straight double quote, the
  apostrophe, the backtick and the parentheses.
\<close>

definition wrappers :: "(jsstring \<times> jsstring) list" where
  "wrappers =
     [([96, 96, 96], [96, 96, 96]), ([8220], [8221]), ([34], [34]),
      ([39], [39]), ([96], [96]), ([40], [41])]"

fun unwrapWith :: "(jsstring \<times> jsstring) list \<Rightarrow> jsstring \<Rightarrow> jsstring option" where
  "unwrapWith [] trimmed = None"
| "unwrapWith ((start, stop) # ws) trimmed =
     (if startsWith trimmed start \<and> endsWith trimmed stop
         \<and> length trimmed > length start + length stop
      then Some (trim (slice trimmed (length start) (length trimmed - length stop)))
      else unwrapWith ws trimmed)"

definition unwrapTextBlock :: "jsstring \<Rightarrow> jsstring" where
  "unwrapTextBlock t =
     (case unwrapWith wrappers (trim t) of
        Some inner \<Rightarrow> inner
      | None \<Rightarrow> stripTrailingBlankLines (stripLeadingBlankLines t))"

section \<open>Conversion of a string to a number\<close>

text \<open>
  \<^verbatim>\<open>Number(value)\<close> on a string follows the grammar of the language standard: optional
  white space around either nothing (the number 0), a binary, octal or hexadecimal
  integer with its \<^verbatim>\<open>0b\<close>, \<^verbatim>\<open>0o\<close>, \<^verbatim>\<open>0x\<close> prefix, or an optionally signed decimal
  literal with optional fraction and exponent, or \<^verbatim>\<open>Infinity\<close>. \<open>stringToNumber\<close>
  yields the mathematical value of the literal, and \<open>None\<close> where the conversion gives
  NaN or an infinity.
\<close>

definition isDecimalDigit :: "nat \<Rightarrow> bool" where
  "isDecimalDigit c \<longleftrightarrow> 48 \<le> c \<and> c \<le> 57"

definition digitValue :: "nat \<Rightarrow> nat option" where
  "digitValue c =
     (if 48 \<le> c \<and> c \<le> 57 then Some (c - 48)
      else if 97 \<le> c \<and> c \<le> 102 then Some (c - 87)
      else if 65 \<le> c \<and> c \<le> 70 then Some (c - 55)
      else None)"

fun digitsValue :: "nat \<Rightarrow> nat \<Rightarrow> jsstring \<Rightarrow> nat option" where
  "digitsValue base acc [] = Some acc"
| "digitsValue base acc (c # cs) =
     (case digitValue c of
        None \<Rightarrow> None
      | Some d \<Rightarrow> if d < base then digitsValue base (acc * base + d) cs else None)"

definition radixOfPrefix :: "nat \<Rightarrow> nat option" where
  "radixOfPrefix c =
     (if c = 120 \<or> c = 88 then Some 16
      else if c = 111 \<or> c = 79 then Some 8
      else if c = 98 \<or> c = 66 then Some 2
      else None)"

fun nonDecimalIntegerLiteral :: "jsstring \<Rightarrow> nat option" where
  "nonDecimalIntegerLiteral (z # p # d # ds) =
     (if z = 48 then
        (case radixOfPrefix p of None \<Rightarrow> None | Some base \<Rightarrow> digitsValue base 0 (d # ds))
      else None)"
| "nonDecimalIntegerLiteral s = None"

definition powerOfTen :: "int \<Rightarrow> rat" where
  "powerOfTen k = (if 0 \<le> k then 10 ^ nat k else 1 / 10 ^ nat (- k))"

definition exponentPart :: "jsstring \<Rightarrow> int option" where
  "exponentPart s =
     (case s of
        [] \<Rightarrow> Some 0
      | e # r \<Rightarrow>
          if e = 101 \<or> e = 69 then
            (let (negative, ds) =
                   (case r of
                      [] \<Rightarrow> (False, r)
                    | sg # r' \<Rightarrow> if sg = 45 then (True, r') else if sg = 43 then (False, r') else (False, r))
             in if ds = [] then None
                else (case digitsValue 10 0 ds of
                        None \<Rightarrow> None
                      | Some n \<Rightarrow> Some (if negative then - int n else int n)))
          else None)"

definition strUnsignedDecimalLiteral :: "jsstring \<Rightarrow> rat option" where
  "strUnsignedDecimalLiteral s =
     (let ip = takeWhile isDecimalDigit s;
          r1 = dropWhile isDecimalDigit s;
          (fp, r2) =
            (case r1 of
               [] \<Rightarrow> ([], r1)
             | dot # r \<Rightarrow>
                 if dot = 46 then (takeWhile isDecimalDigit r, dropWhile isDecimalDigit r)
                 else ([], r1))
      in if ip = [] \<and> fp = [] then None
         else (case (digitsValue 10 0 (ip @ fp), exponentPart r2) of
                 (Some m, Some e) \<Rightarrow> Some (of_nat m * powerOfTen (e - int (length fp)))
               | _ \<Rightarrow> None))"

definition stringToNumber :: "jsstring \<Rightarrow> rat option" where
  "stringToNumber v =
     (let t = trim v
      in if t = [] then Some 0
         else (case nonDecimalIntegerLiteral t of
                 Some n \<Rightarrow> Some (of_nat n)
               | None \<Rightarrow>
                   (case t of
                      [] \<Rightarrow> None
                    | sg # r \<Rightarrow>
                        if sg = 43 then strUnsignedDecimalLiteral r
                        else if sg = 45 then map_option uminus (strUnsignedDecimalLiteral r)
                        else strUnsignedDecimalLiteral t)))"

text \<open>
  The value of the literal is rounded to the nearest double, ties to even. The only
  question \<^verbatim>\<open>maybeDigit\<close> asks of the result is whether it is one of the integers 0 to 9,
  so the rounding is given by the intervals of values whose nearest double is that
  integer: half the distance to the neighbouring doubles on either side, both ends
  included since each of these integers has an even significand. A magnitude of at most
  \<open>2 ^ - 1075\<close> rounds to zero (of either sign; \<^verbatim>\<open>-0\<close> passes the range test of the code).
\<close>

definition digitLower :: "int \<Rightarrow> rat" where
  "digitLower d =
     (if d = 1 then 1 - 1 / 2 ^ 54
      else if d = 2 then 2 - 1 / 2 ^ 53
      else if d = 3 then 3 - 1 / 2 ^ 52
      else if d = 4 then 4 - 1 / 2 ^ 52
      else if d = 8 then 8 - 1 / 2 ^ 51
      else if d = 9 then 9 - 1 / 2 ^ 50
      else of_int d - 1 / 2 ^ 51)"

definition digitUpper :: "int \<Rightarrow> rat" where
  "digitUpper d =
     (if d = 1 then 1 + 1 / 2 ^ 53
      else if d = 2 \<or> d = 3 then of_int d + 1 / 2 ^ 52
      else if d = 8 \<or> d = 9 then of_int d + 1 / 2 ^ 50
      else of_int d + 1 / 2 ^ 51)"

definition nearestDigit :: "rat \<Rightarrow> int option" where
  "nearestDigit v =
     (if \<bar>v\<bar> \<le> 1 / 2 ^ 1075 then Some 0
      else find (\<lambda>d. digitLower d \<le> v \<and> v \<le> digitUpper d) [1, 2, 3, 4, 5, 6, 7, 8, 9])"

text \<open>
  \<^verbatim>\<open>maybeDigit\<close>: the empty string is no digit; otherwise the string is converted and
  kept when the number is an integer from 0 to 9.
\<close>

definition maybeDigit :: "jsstring \<Rightarrow> int option" where
  "maybeDigit v =
     (if v = [] then None
      else (case stringToNumber v of None \<Rightarrow> None | Some parsed \<Rightarrow> nearestDigit parsed))"

section \<open>squares-analysis: digit axes\<close>

definition DIGITS :: "int list" where
  "DIGITS = [0, 1, 2, 3, 4, 5, 6, 7, 8, 9]"

definition defaultDigits :: "int list" where
  "defaultDigits = DIGITS"

text \<open>
  \<^verbatim>\<open>isValidDigitArray\<close>: ten entries, ten distinct values (the size of the set built from
  the array), every entry from 0 to 9. Entries are integers in the model, so the
  \<^verbatim>\<open>Number.isInteger\<close> test always passes.
\<close>

definition isValidDigitArray :: "int list \<Rightarrow> bool" where
  "isValidDigitArray digits \<longleftrightarrow>
     (if length digits \<noteq> 10 then False
      else length (remdups digits) = 10 \<and> list_all (\<lambda>n. 0 \<le> n \<and> n \<le> 9) digits)"

section \<open>squares-parse: header row\<close>

text \<open>
  \<^verbatim>\<open>extractDigitsFromRow\<close>: the windows of ten cells are tried from the left; a window
  with a cell that is no digit is skipped, and the first window that is a valid digit
  array is returned with its offset.
\<close>

function extractDigitsLoop :: "jsstring list \<Rightarrow> nat \<Rightarrow> (nat \<times> int list) option" where
  "extractDigitsLoop cells start =
     (if start + 10 \<le> length cells then
        (case those (map maybeDigit (slice cells start (start + 10))) of
           None \<Rightarrow> extractDigitsLoop cells (Suc start)
         | Some digits \<Rightarrow>
             if isValidDigitArray digits then Some (start, digits)
             else extractDigitsLoop cells (Suc start))
      else None)"
  by pat_completeness auto
termination
  by (relation "measure (\<lambda>(cells, start). length cells - start)") auto

definition extractDigitsFromRow :: "jsstring list \<Rightarrow> (nat \<times> int list) option" where
  "extractDigitsFromRow cells = extractDigitsLoop cells 0"

section \<open>squares-parse: rows of cells\<close>

definition someCellFilled :: "jsstring list \<Rightarrow> bool" where
  "someCellFilled row = list_ex (\<lambda>cell. length cell > 0) row"

text \<open>
  The loop of \<^verbatim>\<open>parseRows\<close> over the comma or semicolon separated rows, with its two
  variables \<^verbatim>\<open>mergedRows\<close> and \<^verbatim>\<open>pending\<close> (\<open>None\<close> is \<^verbatim>\<open>null\<close>). A row of the target
  width flushes the pending buffer and is kept. Any other row starts the buffer or is
  appended to it; a buffer that reaches the target width is flushed up to that width
  and the cells beyond it stay pending.
\<close>

definition mergeStep ::
  "nat \<Rightarrow> jsstring list list \<times> jsstring list option \<Rightarrow> jsstring list
     \<Rightarrow> jsstring list list \<times> jsstring list option" where
  "mergeStep targetColumns st row =
     (let (mergedRows, pending) = st
      in if length row = targetColumns then
           (case pending of
              None \<Rightarrow> (mergedRows @ [row], None)
            | Some p \<Rightarrow> ((mergedRows @ [p]) @ [row], None))
         else
           (let (mergedRows1, pending1) =
                  (case pending of
                     None \<Rightarrow> (mergedRows, row)
                   | Some p \<Rightarrow>
                       if length p < targetColumns \<and> length row < targetColumns
                       then (mergedRows, p @ row)
                       else (mergedRows @ [p], row))
            in if length pending1 \<ge> targetColumns
               then (mergedRows1 @ [slice pending1 0 targetColumns],
                     if length pending1 > targetColumns then Some (drop targetColumns pending1)
                     else None)
               else (mergedRows1, Some pending1)))"

definition mergeRows :: "nat \<Rightarrow> jsstring list list \<Rightarrow> jsstring list list" where
  "mergeRows targetColumns csvRows =
     (let (mergedRows, pending) = foldl (mergeStep targetColumns) ([], None) csvRows
      in (case pending of
            None \<Rightarrow> mergedRows
          | Some p \<Rightarrow> if someCellFilled p then mergedRows @ [p] else mergedRows))"

definition targetColumnsOf :: "jsstring list list \<Rightarrow> nat" where
  "targetColumnsOf csvRows = fold max (map length csvRows) 1"

definition cleanText :: "jsstring \<Rightarrow> jsstring" where
  "cleanText t =
     removeFences
       (filter (\<lambda>c. c \<noteq> 13)
          (map (\<lambda>c. if c = 65292 then 44 else c)
             (map (\<lambda>c. if c = 160 then 32 else c) (unwrapTextBlock t))))"

definition linesOf :: "jsstring \<Rightarrow> jsstring list" where
  "linesOf cleanedText =
     filter (\<lambda>line. length (trim line) > 0)
       (map stripTrailingWhiteSpace (splitOn 10 cleanedText))"

text \<open>
  \<^verbatim>\<open>parseRows\<close>: tabs win when any line has one; otherwise the delimiter found in more
  lines (comma on a tie) is used with the quote-aware splitter and the ragged rows are
  merged; a text without any of the three is one cell per line.
\<close>

definition parseRows :: "jsstring \<Rightarrow> jsstring list list" where
  "parseRows t =
     (let lines = linesOf (cleanText t)
      in if list_ex (\<lambda>line. includesChar line 9) lines then
           filter someCellFilled (map (\<lambda>line. map normalizeCell (splitOn 9 line)) lines)
         else
           (let commaLines = length (filter (\<lambda>line. includesChar line 44) lines);
                semicolonLines = length (filter (\<lambda>line. includesChar line 59) lines)
            in if commaLines = 0 \<and> semicolonLines = 0 then
                 filter someCellFilled (map (\<lambda>line. [normalizeCell line]) lines)
               else
                 (let delimiter = (if commaLines \<ge> semicolonLines then 44 else 59);
                      csvRows =
                        filter someCellFilled
                          (map (\<lambda>line. map normalizeCell (parseCsvLine line delimiter)) lines);
                      targetColumns = targetColumnsOf csvRows
                  in filter someCellFilled (mergeRows targetColumns csvRows))))"

section \<open>squares-parse: owner names\<close>

text \<open>
  \<^verbatim>\<open>editDistance\<close>: the table \<^verbatim>\<open>dp\<close> is given by its recurrence, \<^verbatim>\<open>dp[i][0] = i\<close>,
  \<^verbatim>\<open>dp[0][j] = j\<close> and the minimum of the three neighbours otherwise.
\<close>

fun dp :: "jsstring \<Rightarrow> jsstring \<Rightarrow> nat \<Rightarrow> nat \<Rightarrow> nat" where
  "dp a b 0 j = j"
| "dp a b (Suc i) 0 = Suc i"
| "dp a b (Suc i) (Suc j) =
     min (min (dp a b i (Suc j) + 1) (dp a b (Suc i) j + 1))
         (dp a b i j + (if a ! i = b ! j then 0 else 1))"

definition editDistance :: "jsstring \<Rightarrow> jsstring \<Rightarrow> nat" where
  "editDistance a b = dp a b (length a) (length b)"

text \<open>
  \<^verbatim>\<open>cleaned.toLowerCase().replace(/[^a-z]/g, "")\<close>: a code unit contributes a letter
  when it is an ASCII letter, or one of the two other characters whose lower case
  contains an ASCII letter: the Kelvin sign (k) and the dotted capital I (i followed by a
  combining dot, which the replacement removes).
\<close>

definition lowerLetter :: "nat \<Rightarrow> nat option" where
  "lowerLetter c =
     (if 65 \<le> c \<and> c \<le> 90 then Some (c + 32)
      else if 97 \<le> c \<and> c \<le> 122 then Some c
      else if c = 8490 then Some 107
      else if c = 304 then Some 105
      else None)"

definition lettersOnlyOf :: "jsstring \<Rightarrow> jsstring" where
  "lettersOnlyOf cleaned = List.map_filter lowerLetter cleaned"

definition stevenVariants :: "jsstring list" where
  "stevenVariants =
     [str ''steven'', str ''steve'', str ''stevie'', str ''stevo'', str ''seven'', str ''tseven'']"

definition normalizeOwnerName :: "jsstring \<Rightarrow> jsstring" where
  "normalizeOwnerName v =
     (let cleaned = normalizeCell v
      in if cleaned = [] then cleaned
         else
           (let lettersOnly = lettersOnlyOf cleaned
            in if lettersOnly = [] then cleaned
               else if lettersOnly \<in> set stevenVariants then str ''Steven''
               else if (startsWith lettersOnly (str ''stev'') \<or> endsWith lettersOnly (str ''seven''))
                       \<and> length lettersOnly \<le> 8 then str ''Steven''
               else if length lettersOnly \<ge> 5 \<and> length lettersOnly \<le> 8 then
                 (if editDistance lettersOnly (str ''steven'') \<le> 2 then str ''Steven'' else cleaned)
               else cleaned))"

section \<open>squares-parse: the board\<close>

record SquaresBoard =
  homeTeam :: jsstring
  awayTeam :: jsstring
  homeDigits :: "int list"
  awayDigits :: "int list"
  owners :: "jsstring list list"

text \<open>The search for the header row: the first row with a window of digits wins.\<close>

fun findHeader :: "jsstring list list \<Rightarrow> nat \<Rightarrow> (nat \<times> nat \<times> int list) option" where
  "findHeader [] rowIndex = None"
| "findHeader (row # rows) rowIndex =
     (case extractDigitsFromRow row of
        Some (startCol, digits) \<Rightarrow> Some (rowIndex, startCol, digits)
      | None \<Rightarrow> findHeader rows (Suc rowIndex))"

text \<open>\<^verbatim>\<open>row[i] ?? ""\<close> and \<^verbatim>\<open>rows[r]?.[i] ?? ""\<close>: an absent cell reads as the empty string.\<close>

definition cellAt :: "jsstring list \<Rightarrow> nat \<Rightarrow> jsstring" where
  "cellAt row i = (if i < length row then row ! i else [])"

definition cellOf :: "jsstring list list \<Rightarrow> nat \<Rightarrow> nat \<Rightarrow> jsstring" where
  "cellOf rows r i = (if r < length rows then cellAt (rows ! r) i else [])"

text \<open>
  The loop that collects the owner rows, over the rows from \<^verbatim>\<open>ownersStartRow\<close> on, with
  its variables \<^verbatim>\<open>ownerRows\<close> and \<^verbatim>\<open>awayDigitsRaw\<close>; it stops at the tenth row.
\<close>

fun collectOwners ::
  "nat \<Rightarrow> jsstring list list \<Rightarrow> jsstring list list \<Rightarrow> int option list
     \<Rightarrow> jsstring list list \<times> int option list" where
  "collectOwners startCol [] ownerRows awayDigitsRaw = (ownerRows, awayDigitsRaw)"
| "collectOwners startCol (row # rows) ownerRows awayDigitsRaw =
     (if length row < startCol + 10 then collectOwners startCol rows ownerRows awayDigitsRaw
      else
        (let ownerSlice = slice row startCol (startCol + 10)
         in if list_all (\<lambda>cell. length cell = 0) ownerSlice
            then collectOwners startCol rows ownerRows awayDigitsRaw
            else
              (let ownerRows1 = ownerRows @ [map normalizeOwnerName ownerSlice];
                   awayDigitFromLeft =
                     (if startCol > 0 then maybeDigit (cellAt row (startCol - 1)) else None);
                   awayDigitsRaw1 = awayDigitsRaw @ [awayDigitFromLeft]
               in if length ownerRows1 = 10 then (ownerRows1, awayDigitsRaw1)
                  else collectOwners startCol rows ownerRows1 awayDigitsRaw1)))"

text \<open>\<^verbatim>\<open>awayDigitsRaw.map((digit, index) => digit == null ? index : digit)\<close>\<close>

fun fillAwayDigits :: "nat \<Rightarrow> int option list \<Rightarrow> int list" where
  "fillAwayDigits index [] = []"
| "fillAwayDigits index (digit # ds) =
     (case digit of None \<Rightarrow> int index | Some d \<Rightarrow> d) # fillAwayDigits (Suc index) ds"

definition teamLabel :: "jsstring \<Rightarrow> jsstring \<Rightarrow> jsstring" where
  "teamLabel fallback candidate =
     (if candidate \<noteq> [] \<and> maybeDigit candidate = None then candidate else fallback)"

definition parseSquaresFromPastedText :: "jsstring \<Rightarrow> error + SquaresBoard" where
  "parseSquaresFromPastedText t =
     (let rows = parseRows t
      in if length rows < 10 then Inl UnderfilledPastedInput
         else
           (let header = findHeader rows 0;
                startCol = (case header of None \<Rightarrow> 0 | Some (i, c, ds) \<Rightarrow> c);
                homeDigits0 = (case header of None \<Rightarrow> defaultDigits | Some (i, c, ds) \<Rightarrow> ds);
                ownersStartRow = (case header of None \<Rightarrow> 0 | Some (i, c, ds) \<Rightarrow> i + 1);
                (ownerRows, awayDigitsRaw) =
                   collectOwners startCol (drop ownersStartRow rows) [] []
            in if length ownerRows \<noteq> 10 then Inl IncompleteOwnershipGrid
               else
                 (let awayDigits1 = fillAwayDigits 0 awayDigitsRaw;
                      awayDigits2 =
                        (if \<not> isValidDigitArray awayDigits1 then defaultDigits else awayDigits1);
                      homeTeam0 =
                        (case header of
                           None \<Rightarrow> str ''Home Team''
                         | Some (i, c, ds) \<Rightarrow>
                             if i > 0 then teamLabel (str ''Home Team'') (cellOf rows (i - 1) startCol)
                             else str ''Home Team'');
                      awayTeam0 =
                        (if ownersStartRow < length rows \<and> startCol > 1
                         then teamLabel (str ''Away Team'') (cellOf rows ownersStartRow (startCol - 2))
                         else str ''Away Team'')
                  in Inr \<lparr> homeTeam = homeTeam0, awayTeam = awayTeam0,
                           homeDigits = homeDigits0, awayDigits = awayDigits2,
                           owners = ownerRows \<rparr>)))"

section \<open>Double-precision arithmetic\<close>

text \<open>
  The analysis computes with JavaScript numbers, IEEE 754 doubles. A finite double is
  modelled by its value; the other numbers are the two infinities and NaN. The two
  zeros are one value: the code never divides by a zero and never looks at the sign of
  one.
\<close>

datatype number = Finite rat | PositiveInfinity | NegativeInfinity | NaN

text \<open>
  \<open>binaryExponent a\<close> is the exponent \<open>e\<close> of a positive \<open>a\<close>, the integer with
  \<open>2^e \<le> a < 2^(e + 1)\<close>. The doubles of exponent \<open>e\<close> are the multiples of
  \<open>2^(e - 52)\<close>; below \<open>2^(-1022)\<close> they are the multiples of \<open>2^(-1074)\<close>.
\<close>

function log2Floor :: "int \<Rightarrow> int" where
  "log2Floor n = (if n \<le> 1 then 0 else 1 + log2Floor (n div 2))"
  by pat_completeness auto
termination by (relation "measure nat") auto

definition binaryExponent :: "rat \<Rightarrow> int" where
  "binaryExponent a =
     (if 1 \<le> a then log2Floor \<lfloor>a\<rfloor> else - (log2Floor (\<lceil>1 / a\<rceil> - 1) + 1))"

definition quantum :: "rat \<Rightarrow> rat" where
  "quantum x = 2 powi (max (binaryExponent \<bar>x\<bar>) (- 1022) - 52)"

text \<open>Rounding to the nearest integer, a tie going to the even one.\<close>

definition roundHalfEven :: "rat \<Rightarrow> int" where
  "roundHalfEven t =
     (let f = \<lfloor>t\<rfloor>; r = t - of_int f
      in if r < 1 / 2 then f else if 1 / 2 < r then f + 1 else if even f then f else f + 1)"

text \<open>
  The nearest multiple of the quantum, and the result of an operation whose exact value
  is \<open>x\<close>: that multiple, or an infinity when it reaches \<open>2^1024\<close>.
\<close>

definition nearest :: "rat \<Rightarrow> rat" where
  "nearest x = (if x = 0 then 0 else of_int (roundHalfEven (x / quantum x)) * quantum x)"

definition roundToDouble :: "rat \<Rightarrow> number" where
  "roundToDouble x =
     (let y = nearest x
      in if 2 ^ 1024 \<le> y then PositiveInfinity
         else if y \<le> - (2 ^ 1024) then NegativeInfinity
         else Finite y)"

text \<open>
  A rational is a double when rounding leaves it as it is. A number literal of the
  program text denotes the double nearest to it.
\<close>

definition isDouble :: "rat \<Rightarrow> bool" where
  "isDouble x \<longleftrightarrow> roundToDouble x = Finite x"

definition literal :: "rat \<Rightarrow> rat" where
  "literal x = nearest x"

text \<open>The operators \<^verbatim>\<open>+\<close>, \<^verbatim>\<open>-\<close>, \<^verbatim>\<open>*\<close>, \<^verbatim>\<open>/\<close>, \<^verbatim>\<open><\<close>, \<^verbatim>\<open><=\<close> and \<^verbatim>\<open>Math.max\<close>.\<close>

fun signOf :: "number \<Rightarrow> int" where
  "signOf (Finite x) = (if 0 < x then 1 else if x < 0 then - 1 else 0)"
| "signOf PositiveInfinity = 1"
| "signOf NegativeInfinity = - 1"
| "signOf NaN = 0"

fun fneg :: "number \<Rightarrow> number" where
  "fneg (Finite x) = Finite (- x)"
| "fneg PositiveInfinity = NegativeInfinity"
| "fneg NegativeInfinity = PositiveInfinity"
| "fneg NaN = NaN"

fun fadd :: "number \<Rightarrow> number \<Rightarrow> number" where
  "fadd (Finite x) (Finite y) = roundToDouble (x + y)"
| "fadd NaN _ = NaN"
| "fadd _ NaN = NaN"
| "fadd PositiveInfinity NegativeInfinity = NaN"
| "fadd NegativeInfinity PositiveInfinity = NaN"
| "fadd PositiveInfinity _ = PositiveInfinity"
| "fadd NegativeInfinity _ = NegativeInfinity"
| "fadd _ b = b"

definition fsub :: "number \<Rightarrow> number \<Rightarrow> number" where
  "fsub a b = fadd a (fneg b)"

fun fmul :: "number \<Rightarrow> number \<Rightarrow> number" where
  "fmul (Finite x) (Finite y) = roundToDouble (x * y)"
| "fmul NaN _ = NaN"
| "fmul _ NaN = NaN"
| "fmul a b =
     (if signOf a * signOf b = 0 then NaN
      else if 0 < signOf a * signOf b then PositiveInfinity else NegativeInfinity)"

fun fdiv :: "number \<Rightarrow> number \<Rightarrow> number" where
  "fdiv (Finite x) (Finite y) =
     (if y = 0 then (if x = 0 then NaN else if 0 < x then PositiveInfinity else NegativeInfinity)
      else roundToDouble (x / y))"
| "fdiv NaN _ = NaN"
| "fdiv _ NaN = NaN"
| "fdiv (Finite x) _ = Finite 0"
| "fdiv a (Finite y) = (if 0 \<le> y then a else fneg a)"
| "fdiv _ _ = NaN"

fun fless :: "number \<Rightarrow> number \<Rightarrow> bool" where
  "fless (Finite x) (Finite y) \<longleftrightarrow> x < y"
| "fless NaN _ \<longleftrightarrow> False"
| "fless _ NaN \<longleftrightarrow> False"
| "fless _ NegativeInfinity \<longleftrightarrow> False"
| "fless PositiveInfinity _ \<longleftrightarrow> False"
| "fless _ _ \<longleftrightarrow> True"

definition fle :: "number \<Rightarrow> number \<Rightarrow> bool" where
  "fle a b \<longleftrightarrow> a \<noteq> NaN \<and> b \<noteq> NaN \<and> (a = b \<or> fless a b)"

fun fmax :: "number \<Rightarrow> number \<Rightarrow> number" where
  "fmax (Finite x) (Finite y) = Finite (max x y)"
| "fmax NaN _ = NaN"
| "fmax _ NaN = NaN"
| "fmax PositiveInfinity _ = PositiveInfinity"
| "fmax _ PositiveInfinity = PositiveInfinity"
| "fmax NegativeInfinity b = b"
| "fmax a NegativeInfinity = a"

text \<open>
  \<^verbatim>\<open>sort\<close> with the comparator \<^verbatim>\<open>(a, b) => key(b) - key(a)\<close> is stable: an element
  moves behind another one only when the comparator is positive.
\<close>

fun insertDescending :: "('a \<Rightarrow> number) \<Rightarrow> 'a \<Rightarrow> 'a list \<Rightarrow> 'a list" where
  "insertDescending key x [] = [x]"
| "insertDescending key x (y # ys) =
     (if fless (Finite 0) (fsub (key y) (key x)) then y # insertDescending key x ys
      else x # y # ys)"

definition sortDescending :: "('a \<Rightarrow> number) \<Rightarrow> 'a list \<Rightarrow> 'a list" where
  "sortDescending key xs = foldr (insertDescending key) xs []"

section \<open>squares-analysis: the probability model\<close>

text \<open>
  \<^verbatim>\<open>americanToRawProbability\<close>: positive odds give \<open>100 / (a + 100)\<close>, negative odds
  \<open>|a| / (|a| + 100)\<close>, and zero throws "American odds cannot be 0".
\<close>

definition americanToRawProbability :: "rat \<Rightarrow> error + number" where
  "americanToRawProbability american =
     (if american > 0 then Inr (fdiv (Finite 100) (fadd (Finite american) (Finite 100)))
      else if american < 0
      then (let a = \<bar>american\<bar> in Inr (fdiv (Finite a) (fadd (Finite a) (Finite 100))))
      else Inl InvalidOdds)"

section \<open>squares-analysis: the expected-value report\<close>

text \<open>
  An odds grid is an array of arrays of numbers; an entry that is not a finite number
  is \<open>None\<close>. Of \<^verbatim>\<open>DraftKingsSquaresOdds\<close> the analysis reads the two grids only.
\<close>

type_synonym SquaresGrid = "rat option list list"

record DraftKingsSquaresOdds =
  anyQuarterOdds :: SquaresGrid
  finalResultOdds :: SquaresGrid

record OwnerStat =
  owner :: jsstring
  numSquares :: nat
  totalEv :: number
  evPerSquare :: number
  bestSquareEv :: number

record TopSquare =
  squareOwner :: jsstring
  homeDigit :: int
  awayDigit :: int
  ev :: number
  probability :: number

record SquaresAnalysis =
  totalPot :: number
  sumEv :: number
  evByDigit :: "number list list"
  combinedProbability :: "number list list"
  boardEv :: "number list list"
  ownerStats :: "OwnerStat list"
  topSquares :: "TopSquare list"

text \<open>
  \<^verbatim>\<open>grid[awayDigit]?.[homeDigit]\<close>: reading outside an array gives \<^verbatim>\<open>undefined\<close>, which
  is not a finite number.
\<close>

definition lookupOdds :: "SquaresGrid \<Rightarrow> int \<Rightarrow> int \<Rightarrow> rat option" where
  "lookupOdds grid a h =
     (if 0 \<le> a \<and> nat a < length grid then
        (let row = grid ! nat a
         in if 0 \<le> h \<and> nat h < length row then row ! nat h else None)
      else None)"

text \<open>
  The body of the double loop over the digits: both quotations must be finite, each is
  converted, and the two raw probabilities are blended.
\<close>

definition combineCell ::
  "DraftKingsSquaresOdds \<Rightarrow> rat \<Rightarrow> rat \<Rightarrow> int \<Rightarrow> int \<Rightarrow> error + number" where
  "combineCell odds finalResultWeight anyQuarterWeight away home =
     (case (lookupOdds (finalResultOdds odds) away home,
            lookupOdds (anyQuarterOdds odds) away home) of
        (Some finalOdds, Some anyOdds) \<Rightarrow>
          (case americanToRawProbability finalOdds of
             Inl e \<Rightarrow> Inl e
           | Inr rawFinal \<Rightarrow>
               (case americanToRawProbability anyOdds of
                  Inl e \<Rightarrow> Inl e
                | Inr rawAnyQuarter \<Rightarrow>
                    Inr (fadd (fmul (Finite finalResultWeight) rawFinal)
                              (fmul (Finite anyQuarterWeight) rawAnyQuarter))))
      | _ \<Rightarrow> Inl (IncompleteOddsCoverage away home))"

text \<open>A loop whose body may throw: the first error ends it.\<close>

fun traverse :: "('a \<Rightarrow> error + 'b) \<Rightarrow> 'a list \<Rightarrow> error + 'b list" where
  "traverse f [] = Inr []"
| "traverse f (x # xs) =
     (case f x of
        Inl e \<Rightarrow> Inl e
      | Inr y \<Rightarrow> (case traverse f xs of Inl e \<Rightarrow> Inl e | Inr ys \<Rightarrow> Inr (y # ys)))"

definition combinedRawOf ::
  "DraftKingsSquaresOdds \<Rightarrow> rat \<Rightarrow> rat \<Rightarrow> error + number list list" where
  "combinedRawOf odds finalResultWeight anyQuarterWeight =
     traverse
       (\<lambda>away.
          traverse (combineCell odds finalResultWeight anyQuarterWeight away) DIGITS)
       DIGITS"

text \<open>
  The map \<^verbatim>\<open>ownerTotals\<close> keeps its keys in the order of first insertion; the record
  of an owner seen before is updated in place, a new one starts from a total of 0 and a
  best value of minus infinity.
\<close>

fun addSquare :: "jsstring \<Rightarrow> number \<Rightarrow> (jsstring \<times> number \<times> nat \<times> number) list
    \<Rightarrow> (jsstring \<times> number \<times> nat \<times> number) list" where
  "addSquare name e [] = [(name, fadd (Finite 0) e, 1, fmax NegativeInfinity e)]"
| "addSquare name e ((k, tot, n, best) # rest) =
     (if k = name then (k, fadd tot e, n + 1, fmax best e) # rest
      else (k, tot, n, best) # addSquare name e rest)"

definition squaresOf ::
  "SquaresBoard \<Rightarrow> number list list \<Rightarrow> number list list \<Rightarrow> TopSquare list" where
  "squaresOf board evGrid probGrid =
     concat
       (map (\<lambda>row.
          map (\<lambda>col.
             (let a = awayDigits board ! row; h = homeDigits board ! col
              in \<lparr> squareOwner = trim (owners board ! row ! col), homeDigit = h, awayDigit = a,
                    ev = evGrid ! nat a ! nat h, probability = probGrid ! nat a ! nat h \<rparr>))
            [0..<10])
          [0..<10])"

definition computeSquaresAnalysis ::
  "SquaresBoard \<Rightarrow> DraftKingsSquaresOdds \<Rightarrow> rat \<Rightarrow> rat \<Rightarrow> rat \<Rightarrow> error + SquaresAnalysis" where
  "computeSquaresAnalysis board odds squarePrice finalResultWeight anyQuarterWeight =
     (if \<not> isValidDigitArray (homeDigits board) then Inl (MalformedDigitAxis Home)
      else if \<not> isValidDigitArray (awayDigits board) then Inl (MalformedDigitAxis Away)
      else if length (owners board) \<noteq> 10 \<or> list_ex (\<lambda>row. length row \<noteq> 10) (owners board)
      then Inl MalformedBoardShape
      else
        (case combinedRawOf odds finalResultWeight anyQuarterWeight of
           Inl e \<Rightarrow> Inl e
         | Inr combinedRaw \<Rightarrow>
             (let totalCombinedRaw = foldl fadd (Finite 0) (concat combinedRaw)
              in if fle totalCombinedRaw (Finite 0) then Inl DegenerateProbabilityMass
                 else
                   (let totalPot0 = fmul (Finite squarePrice) (Finite 100);
                        probGrid = map (map (\<lambda>c. fdiv c totalCombinedRaw)) combinedRaw;
                        evGrid = map (map (\<lambda>p. fmul p totalPot0)) probGrid;
                        squares = squaresOf board evGrid probGrid;
                        boardEv0 =
                          map (\<lambda>row.
                                 map (\<lambda>col. evGrid ! nat (awayDigits board ! row)
                                                  ! nat (homeDigits board ! col))
                                   [0..<10])
                            [0..<10];
                        occupied = filter (\<lambda>s. squareOwner s \<noteq> []) squares;
                        ownerTotals = foldl (\<lambda>m s. addSquare (squareOwner s) (ev s) m) [] occupied;
                        stats =
                          map (\<lambda>(k, tot, n, best).
                                 \<lparr> owner = k, numSquares = n, totalEv = tot,
                                    evPerSquare = fdiv tot (Finite (of_nat n)),
                                    bestSquareEv = best \<rparr>)
                            ownerTotals
                    in Inr \<lparr> totalPot = totalPot0,
                             sumEv = foldl fadd (Finite 0) (concat boardEv0),
                             evByDigit = evGrid,
                             combinedProbability = probGrid,
                             boardEv = boardEv0,
                             ownerStats = sortDescending totalEv stats,
                             topSquares = sortDescending ev occupied \<rparr>))))"

section \<open>The result of the two loops of the parser\<close>

text \<open>
  Names for intermediate values of \<^verbatim>\<open>parseSquaresFromPastedText\<close>: the start column, the
  first owner row and the home digits that the header search fixes, and the pair of
  \<^verbatim>\<open>ownerRows\<close> and \<^verbatim>\<open>awayDigitsRaw\<close> when the collecting loop ends.
\<close>

definition headerStartCol :: "(nat \<times> nat \<times> int list) option \<Rightarrow> nat" where
  "headerStartCol header = (case header of None \<Rightarrow> 0 | Some (i, c, ds) \<Rightarrow> c)"

definition headerOwnersStart :: "(nat \<times> nat \<times> int list) option \<Rightarrow> nat" where
  "headerOwnersStart header = (case header of None \<Rightarrow> 0 | Some (i, c, ds) \<Rightarrow> i + 1)"

definition headerDigits :: "(nat \<times> nat \<times> int list) option \<Rightarrow> int list" where
  "headerDigits header = (case header of None \<Rightarrow> defaultDigits | Some (i, c, ds) \<Rightarrow> ds)"

definition collectedOwners :: "jsstring \<Rightarrow> jsstring list list \<times> int option list" where
  "collectedOwners t =
     (let rows = parseRows t; header = findHeader rows 0
      in collectOwners (headerStartCol header) (drop (headerOwnersStart header) rows) [] [])"

text \<open>The away digits as collected, before they are validated.\<close>

definition collectedAwayDigits :: "jsstring \<Rightarrow> int list" where
  "collectedAwayDigits t = fillAwayDigits 0 (snd (collectedOwners t))"

section \<open>Pasted grids\<close>

text \<open>
  A grid as a spreadsheet puts it on the clipboard: the cells of a row separated by
  tabs, every row ended by a line feed.
\<close>

fun joinCells :: "jsstring list \<Rightarrow> jsstring" where
  "joinCells [] = []"
| "joinCells [c] = c"
| "joinCells (c # d # cs) = c @ 9 # joinCells (d # cs)"

definition pasteText :: "jsstring list list \<Rightarrow> jsstring" where
  "pasteText rows = concat (map (\<lambda>row. joinCells row @ [10]) rows)"

text \<open>
  The shape of a normalized cell: every white-space character in it is a space, and no
  space is followed by white space.
\<close>

fun tidy :: "jsstring \<Rightarrow> bool" where
  "tidy (a # b # cs) \<longleftrightarrow> (\<not> isWhiteSpace a \<or> (a = 32 \<and> \<not> isWhiteSpace b)) \<and> tidy (b # cs)"
| "tidy [a] \<longleftrightarrow> \<not> isWhiteSpace a \<or> a = 32"
| "tidy [] \<longleftrightarrow> True"

text \<open>
  What makes a pasted grid well formed for the tokenizer. A cell is plain when it has no
  tab, line feed, carriage return, backtick, no-break space or full-width comma, the
  characters that the tokenizer splits at, removes or replaces. A row needs a last cell
  that ends in a visible character, since trailing white space of a line, tabs
  included, is stripped before the line is split. In a grid some row has a tab, and the
  text does not end with a closing quote or parenthesis that could be taken for a
  wrapper. A digit cell holds the one character of a digit.
\<close>

definition plainChar :: "nat \<Rightarrow> bool" where
  "plainChar c \<longleftrightarrow> c \<notin> set [9, 10, 13, 96, 160, 65292]"

definition plainCell :: "jsstring \<Rightarrow> bool" where
  "plainCell cell = list_all plainChar cell"

definition visibleEnd :: "jsstring \<Rightarrow> bool" where
  "visibleEnd s \<longleftrightarrow> s \<noteq> [] \<and> \<not> isWhiteSpace (last s)"

definition pastedRow :: "jsstring list \<Rightarrow> bool" where
  "pastedRow row \<longleftrightarrow> row \<noteq> [] \<and> list_all plainCell row \<and> visibleEnd (last row)"

definition pastedGrid :: "jsstring list list \<Rightarrow> bool" where
  "pastedGrid rows \<longleftrightarrow>
     rows \<noteq> [] \<and> list_all pastedRow rows \<and> list_ex (\<lambda>row. 2 \<le> length row) rows
     \<and> last (last (last rows)) \<notin> set [8221, 34, 39, 41]"

definition digitCell :: "int \<Rightarrow> jsstring" where
  "digitCell d = [48 + nat d]"

text \<open>
  A grid in the layout of Scenario C: a row of labels, the header row with the digits in
  the order 3 1 4 0 5 9 2 6 8 7, and ten owner rows; the first owner cell is a variant
  spelling of the canonical name.
\<close>

definition ownerRow :: "jsstring list" where
  "ownerRow = [str ''Ann'', str ''Bob'', str ''Cy'', str ''Di'', str ''Ed'', str ''Flo'', str ''Gus'',
     str ''Hal'', str ''Ivy'', str ''Jo'']"

definition scenarioLabels :: "jsstring list list" where
  "scenarioLabels =
     [[str ''A'', str ''B'', str ''C'', str ''D'', str ''E'', str ''F'', str ''G'', str ''H'', str ''I'', str ''J'']]"

definition scenarioDigits :: "int list" where
  "scenarioDigits = [3, 1, 4, 0, 5, 9, 2, 6, 8, 7]"

definition scenarioCells :: "jsstring list list" where
  "scenarioCells =
     [[str ''Steve'', str ''Bob'', str ''Cy'', str ''Di'', str ''Ed'', str ''Flo'', str ''Gus'', str ''Hal'', str ''Ivy'', str ''Jo''],
      ownerRow, ownerRow, ownerRow, ownerRow, ownerRow, ownerRow, ownerRow, ownerRow, ownerRow]"

definition scenarioGrid :: "jsstring list list" where
  "scenarioGrid = scenarioLabels @ map digitCell scenarioDigits # scenarioCells"

text \<open>The board that the parser returns for this grid.\<close>

definition scenarioBoard :: SquaresBoard where
  "scenarioBoard =
     \<lparr> homeTeam = str ''A'', awayTeam = str ''Away Team'',
       homeDigits = [3, 1, 4, 0, 5, 9, 2, 6, 8, 7],
       awayDigits = [0, 1, 2, 3, 4, 5, 6, 7, 8, 9],
       owners =
         [[str ''Steven'', str ''Bob'', str ''Cy'', str ''Di'', str ''Ed'', str ''Flo'', str ''Gus'', str ''Hal'', str ''Ivy'', str ''Jo''],
          ownerRow, ownerRow, ownerRow, ownerRow, ownerRow, ownerRow, ownerRow, ownerRow, ownerRow] \<rparr>"

section \<open>Odds grids and their gaps\<close>

text \<open>\<^verbatim>\<open>createEmptyGrid\<close>: ten rows of ten copies of the fill value.\<close>

definition createEmptyGrid :: "rat option \<Rightarrow> SquaresGrid" where
  "createEmptyGrid fill = map (\<lambda>_. map (\<lambda>_. fill) DIGITS) DIGITS"

text \<open>
  The digit pairs in the order of the double loop. A pair is missing when either market
  has no finite quotation for it, and it has a zero when either quotation is 0; the
  missing combinations are all missing pairs, the first unusable pair is the first one
  at which the loop body throws.
\<close>

definition missingAt :: "DraftKingsSquaresOdds \<Rightarrow> int \<times> int \<Rightarrow> bool" where
  "missingAt odds p \<longleftrightarrow>
     lookupOdds (finalResultOdds odds) (fst p) (snd p) = None
     \<or> lookupOdds (anyQuarterOdds odds) (fst p) (snd p) = None"

definition zeroAt :: "DraftKingsSquaresOdds \<Rightarrow> int \<times> int \<Rightarrow> bool" where
  "zeroAt odds p \<longleftrightarrow>
     lookupOdds (finalResultOdds odds) (fst p) (snd p) = Some 0
     \<or> lookupOdds (anyQuarterOdds odds) (fst p) (snd p) = Some 0"

definition digitPairs :: "(int \<times> int) list" where
  "digitPairs = List.product DIGITS DIGITS"

definition missingCombinations :: "DraftKingsSquaresOdds \<Rightarrow> (int \<times> int) list" where
  "missingCombinations odds = filter (missingAt odds) digitPairs"

definition firstUnusablePair :: "DraftKingsSquaresOdds \<Rightarrow> (int \<times> int) option" where
  "firstUnusablePair odds = find (\<lambda>p. missingAt odds p \<or> zeroAt odds p) digitPairs"

text \<open>
  Two odds tables for a board: in the first the final-result market lacks the pairs
  (0, 0) and (0, 1); in the second it quotes 0 for (0, 0) and lacks (0, 1).
\<close>

definition gapOdds :: DraftKingsSquaresOdds where
  "gapOdds =
     \<lparr> anyQuarterOdds = createEmptyGrid (Some (- 110)),
       finalResultOdds =
         (createEmptyGrid (Some (- 110)))
           [0 := (map (\<lambda>_. Some (- 110)) DIGITS) [0 := None, 1 := None]] \<rparr>"

definition zeroOdds :: DraftKingsSquaresOdds where
  "zeroOdds =
     \<lparr> anyQuarterOdds = createEmptyGrid (Some (- 110)),
       finalResultOdds =
         (createEmptyGrid (Some (- 110)))
           [0 := (map (\<lambda>_. Some (- 110)) DIGITS) [0 := Some 0, 1 := None]] \<rparr>"

section \<open>Ragged rows\<close>

text \<open>
  The modal column count, in the words of the specification; the code does not compute
  it. It is the cell count that most rows have, the first such count when several are
  equally frequent.
\<close>

definition modalColumnCount :: "jsstring list list \<Rightarrow> nat" where
  "modalColumnCount rows =
     (let widths = map length rows;
          occurrences = (\<lambda>n. length (filter (\<lambda>m. m = n) widths))
      in fold (\<lambda>n best. if occurrences n > occurrences best then n else best) widths (hd widths))"

text \<open>
  The pieces of a list of cells cut every \<open>t\<close> cells: the full pieces, the cells left
  over after the last full piece, and both together. A row is ragged for the width \<open>t\<close>
  when it has at least one cell and fewer than \<open>t\<close>. A buffer of cells as the variable
  \<^verbatim>\<open>pending\<close> holds it: \<^verbatim>\<open>null\<close> when there is none.
\<close>

function fullChunks :: "nat \<Rightarrow> 'a list \<Rightarrow> 'a list list" where
  "fullChunks t xs =
     (if t = 0 \<or> length xs < t then [] else take t xs # fullChunks t (drop t xs))"
  by pat_completeness auto
termination
  by (relation "measure (\<lambda>(t, xs). length xs)") auto

function leftover :: "nat \<Rightarrow> 'a list \<Rightarrow> 'a list" where
  "leftover t xs = (if t = 0 \<or> length xs < t then xs else leftover t (drop t xs))"
  by pat_completeness auto
termination
  by (relation "measure (\<lambda>(t, xs). length xs)") auto

definition chunks :: "nat \<Rightarrow> 'a list \<Rightarrow> 'a list list" where
  "chunks t xs = fullChunks t xs @ (if leftover t xs = [] then [] else [leftover t xs])"

definition ragged :: "nat \<Rightarrow> jsstring list \<Rightarrow> bool" where
  "ragged t row \<longleftrightarrow> row \<noteq> [] \<and> length row < t"

definition toPending :: "jsstring list \<Rightarrow> jsstring list option" where
  "toPending buf = (if buf = [] then None else Some buf)"

text \<open>Four comma-separated lines, three of three cells and one of four.\<close>

definition csvText :: jsstring where
  "csvText = str ''a,b,c'' @ [10] @ str ''d,e,f'' @ [10] @ str ''g,h,i'' @ [10] @ str ''j,k,l,m''"

definition csvRows :: "jsstring list list" where
  "csvRows =
     [[str ''a'', str ''b'', str ''c''], [str ''d'', str ''e'', str ''f''],
      [str ''g'', str ''h'', str ''i''], [str ''j'', str ''k'', str ''l'', str ''m'']]"

section \<open>Double-precision arithmetic: rounding\<close>

text \<open>
  Facts about rounding to the nearest double: the exponent function is the binary
  exponent, rounding is monotone, symmetric and idempotent, its error is at most half a
  quantum, and two different doubles are at least a relative \<open>2^(-53)\<close> apart.
\<close>

declare log2Floor.simps [simp del]

lemma log2Floor_bounds:
  "1 \<le> n \<Longrightarrow> 0 \<le> log2Floor n \<and> 2 ^ nat (log2Floor n) \<le> n \<and> n < 2 * 2 ^ nat (log2Floor n)"
proof (induction n rule: log2Floor.induct)
  case (1 n)
  show ?case
  proof (cases "n \<le> 1")
    case True
    with 1 show ?thesis by (simp add: log2Floor.simps)
  next
    case False
    then have "1 \<le> n div 2" by simp
    with 1 False have ih: "0 \<le> log2Floor (n div 2)"
      "2 ^ nat (log2Floor (n div 2)) \<le> n div 2" "n div 2 < 2 * 2 ^ nat (log2Floor (n div 2))"
      by simp_all
    have e: "log2Floor n = 1 + log2Floor (n div 2)" using False by (subst log2Floor.simps) simp
    have p: "(2::int) ^ nat (1 + log2Floor (n div 2)) = 2 * 2 ^ nat (log2Floor (n div 2))"
      using ih(1) by (simp add: nat_add_distrib)
    from ih show ?thesis unfolding e p by auto
  qed
qed

lemma roundHalfEven_floor: "\<lfloor>t\<rfloor> \<le> roundHalfEven t \<and> roundHalfEven t \<le> \<lfloor>t\<rfloor> + 1"
  by (simp add: roundHalfEven_def Let_def)

lemma roundHalfEven_near:
  "of_int (roundHalfEven t) \<le> t + 1 / 2 \<and> t - 1 / 2 \<le> of_int (roundHalfEven t)"
  unfolding roundHalfEven_def Let_def
  by (auto simp: not_less) linarith+

lemma roundHalfEven_of_int [simp]: "roundHalfEven (of_int n) = n"
  by (simp add: roundHalfEven_def Let_def)

lemma roundHalfEven_mono:
  assumes "s \<le> t"
  shows "roundHalfEven s \<le> roundHalfEven t"
proof (cases "\<lfloor>s\<rfloor> < \<lfloor>t\<rfloor>")
  case True
  with roundHalfEven_floor [of s] roundHalfEven_floor [of t] show ?thesis by linarith
next
  case False
  with floor_mono [OF assms] have f: "\<lfloor>s\<rfloor> = \<lfloor>t\<rfloor>" by simp
  with assms show ?thesis
    unfolding roundHalfEven_def Let_def by (auto simp: not_less)
qed

lemma roundHalfEven_minus: "roundHalfEven (- t) = - roundHalfEven t"
proof (cases "t = of_int \<lfloor>t\<rfloor>")
  case True
  then obtain n where "t = of_int n" ..
  have "roundHalfEven (of_int (- n)) = - n" by (rule roundHalfEven_of_int)
  then show ?thesis using \<open>t = of_int n\<close> by simp
next
  case False
  with of_int_floor_le [of t] have lt: "of_int \<lfloor>t\<rfloor> < t" by linarith
  have fm: "\<lfloor>- t\<rfloor> = - \<lfloor>t\<rfloor> - 1"
  proof (rule floor_unique)
    have "t < of_int \<lfloor>t\<rfloor> + 1" by linarith
    then show "of_int (- \<lfloor>t\<rfloor> - 1) \<le> - t" by simp
    from lt show "- t < of_int (- \<lfloor>t\<rfloor> - 1) + 1" by simp
  qed
  show ?thesis
    unfolding roundHalfEven_def Let_def fm using lt
    by (auto simp: not_less) 
qed

lemma powi_mono: "a \<le> b \<Longrightarrow> (2::rat) powi a \<le> 2 powi b"
  by (rule power_int_increasing) simp_all

lemma powi_strict_mono: "a < b \<Longrightarrow> (2::rat) powi a < 2 powi b"
  by (rule power_int_strict_increasing) simp_all

lemma powi_Suc: "(2::rat) powi (e + 1) = 2 * 2 powi e"
  by (simp add: power_int_add)

lemma binaryExponent_bounds:
  assumes "0 < a"
  shows "2 powi (binaryExponent a) \<le> a \<and> a < 2 powi (binaryExponent a + 1)"
proof (cases "1 \<le> a")
  case True
  then have n: "1 \<le> \<lfloor>a\<rfloor>" by linarith
  define k where "k = log2Floor \<lfloor>a\<rfloor>"
  from log2Floor_bounds [OF n] have k: "0 \<le> k" "2 ^ nat k \<le> \<lfloor>a\<rfloor>" "\<lfloor>a\<rfloor> < 2 * 2 ^ nat k"
    by (simp_all add: k_def)
  have e: "binaryExponent a = k" using True by (simp add: binaryExponent_def k_def)
  have p: "(2::rat) powi k = of_int (2 ^ nat k)" using k(1) by (simp add: power_int_def)
  have "of_int (2 ^ nat k) \<le> (of_int \<lfloor>a\<rfloor> :: rat)" using k(2) by (simp only: of_int_le_iff)
  then have lo: "2 powi k \<le> a" unfolding p using of_int_floor_le [of a] by linarith
  from k(3) have "\<lfloor>a\<rfloor> + 1 \<le> 2 * 2 ^ nat k" by simp
  then have "(of_int (\<lfloor>a\<rfloor> + 1) :: rat) \<le> of_int (2 * 2 ^ nat k)" by (simp only: of_int_le_iff)
  moreover have "a < of_int (\<lfloor>a\<rfloor> + 1)" by simp linarith
  ultimately have "a < 2 * of_int (2 ^ nat k)" by simp
  then have hi: "a < 2 powi (k + 1)" unfolding powi_Suc p .
  from lo hi show ?thesis unfolding e by simp
next
  case False
  define y where "y = 1 / a"
  from False assms have y: "1 < y" by (simp add: y_def)
  define m where "m = \<lceil>y\<rceil> - 1"
  have m: "1 \<le> m" "of_int m < y" "y \<le> of_int m + 1"
    using y unfolding m_def by (linarith, linarith, simp add: le_of_int_ceiling)
  define k where "k = log2Floor m"
  from log2Floor_bounds [OF m(1)] have k: "0 \<le> k" "2 ^ nat k \<le> m" "m < 2 * 2 ^ nat k"
    by (simp_all add: k_def)
  have e: "binaryExponent a = - (k + 1)"
    using False by (simp add: binaryExponent_def k_def m_def y_def)
  have p: "(2::rat) powi k = of_int (2 ^ nat k)" using k(1) by (simp add: power_int_def)
  have "of_int (2 ^ nat k) \<le> (of_int m :: rat)" using k(2) by (simp only: of_int_le_iff)
  with m(2) have lo: "2 powi k < y" unfolding p by linarith
  from k(3) have "m + 1 \<le> 2 * 2 ^ nat k" by simp
  then have "(of_int (m + 1) :: rat) \<le> of_int (2 * 2 ^ nat k)" by (simp only: of_int_le_iff)
  with m(3) have "y \<le> 2 * of_int (2 ^ nat k)" by simp
  then have hi: "y \<le> 2 powi (k + 1)" unfolding powi_Suc p .
  have pos: "(0::rat) < 2 powi k" "(0::rat) < 2 powi (k + 1)" by simp_all
  have a: "a = 1 / y" using assms by (simp add: y_def)
  have "2 powi (- (k + 1)) \<le> a"
    unfolding a power_int_minus_divide using hi pos y by (simp add: frac_le)
  moreover have "a < 2 powi (- (k + 1) + 1)"
  proof -
    have "1 / y < 1 / 2 powi k" using lo pos by (simp add: frac_less2)
    then show ?thesis unfolding a by (simp add: power_int_minus_divide)
  qed
  ultimately show ?thesis unfolding e by simp
qed

lemma binaryExponent_unique:
  assumes "2 powi e \<le> a" "a < 2 powi (e + 1)"
  shows "binaryExponent a = e"
proof -
  have "(0::rat) < 2 powi e" by simp
  with assms have pos: "0 < a" by linarith
  from binaryExponent_bounds [OF pos]
  have b: "2 powi (binaryExponent a) \<le> a" "a < 2 powi (binaryExponent a + 1)" by simp_all
  have "\<not> binaryExponent a < e"
  proof
    assume "binaryExponent a < e"
    then have "(2::rat) powi (binaryExponent a + 1) \<le> 2 powi e" by (intro powi_mono) simp
    with b(2) assms(1) show False by linarith
  qed
  moreover have "\<not> e < binaryExponent a"
  proof
    assume "e < binaryExponent a"
    then have "(2::rat) powi (e + 1) \<le> 2 powi (binaryExponent a)" by (intro powi_mono) simp
    with b(1) assms(2) show False by linarith
  qed
  ultimately show ?thesis by simp
qed


lemma quantum_pos [simp]: "0 < quantum x"
  by (simp add: quantum_def)

lemma quantum_minus [simp]: "quantum (- x) = quantum x"
  by (simp add: quantum_def)

lemma nearest_minus: "nearest (- x) = - nearest x"
  by (simp add: nearest_def roundHalfEven_minus)

lemma nearest_0 [simp]: "nearest 0 = 0"
  by (simp add: nearest_def)

lemma quantum_normal:
  assumes "2 powi e \<le> \<bar>x\<bar>" "\<bar>x\<bar> < 2 powi (e + 1)" "- 1022 \<le> e"
  shows "quantum x = 2 powi (e - 52)"
  using binaryExponent_unique [OF assms(1,2)] assms(3) by (simp add: quantum_def)

lemma quantum_subnormal:
  assumes "\<bar>x\<bar> < 2 powi (- 1022)" "x \<noteq> 0"
  shows "quantum x = 2 powi (- 1074)"
proof -
  from assms(2) have pos: "0 < \<bar>x\<bar>" by simp
  have "\<not> - 1022 < binaryExponent \<bar>x\<bar>"
  proof
    assume "- 1022 < binaryExponent \<bar>x\<bar>"
    then have "(2::rat) powi (- 1022) \<le> 2 powi (binaryExponent \<bar>x\<bar>)" by (intro powi_mono) simp
    with binaryExponent_bounds [OF pos] assms(1) show False by linarith
  qed
  then have "max (binaryExponent \<bar>x\<bar>) (- 1022) = - 1022" by simp
  then show ?thesis by (simp add: quantum_def)
qed

lemma powi_split: "(2::rat) powi e = 2 powi (e - 52) * 2 ^ 52"
proof -
  have "(2::rat) powi e = 2 powi ((e - 52) + 52)" by simp
  also have "\<dots> = 2 powi (e - 52) * 2 powi 52" by (subst power_int_add) simp_all
  finally show ?thesis by simp
qed

lemma nearest_normal:
  assumes "2 powi e \<le> x" "x < 2 powi (e + 1)" "- 1022 \<le> e"
  shows "2 powi e \<le> nearest x \<and> nearest x \<le> 2 powi (e + 1)"
proof -
  have pe: "(0::rat) < 2 powi e" by simp
  with assms(1) have pos: "0 < x" by linarith
  then have ax: "\<bar>x\<bar> = x" by simp
  define q :: rat where "q = 2 powi (e - 52)"
  have q: "quantum x = q" unfolding q_def
    by (rule quantum_normal) (use assms ax in simp_all)
  have qpos: "0 < q" by (simp add: q_def)
  have lo: "2 powi e = q * 2 ^ 52" unfolding q_def by (rule powi_split)
  have hi: "2 powi (e + 1) = q * 2 ^ 53" unfolding powi_Suc lo by simp
  have "of_int (2 ^ 52) \<le> x / q" using assms(1) qpos unfolding lo by (simp add: field_simps)
  then have "roundHalfEven (of_int (2 ^ 52)) \<le> roundHalfEven (x / q)" by (rule roundHalfEven_mono)
  then have 1: "2 ^ 52 \<le> roundHalfEven (x / q)" by (simp only: roundHalfEven_of_int)
  have "x / q \<le> of_int (2 ^ 53)" using assms(2) qpos unfolding hi by (simp add: field_simps)
  then have "roundHalfEven (x / q) \<le> roundHalfEven (of_int (2 ^ 53))" by (rule roundHalfEven_mono)
  then have 2: "roundHalfEven (x / q) \<le> 2 ^ 53" by (simp only: roundHalfEven_of_int)
  have n: "nearest x = of_int (roundHalfEven (x / q)) * q" using pos by (simp add: nearest_def q)
  from 1 have "(of_int (2 ^ 52) :: rat) \<le> of_int (roundHalfEven (x / q))" by (simp only: of_int_le_iff)
  then have a: "2 powi e \<le> nearest x" unfolding n lo using qpos by (simp add: mult.commute)
  from 2 have "(of_int (roundHalfEven (x / q)) :: rat) \<le> of_int (2 ^ 53)" by (simp only: of_int_le_iff)
  then have b: "nearest x \<le> 2 powi (e + 1)" unfolding n hi using qpos by (simp add: mult.commute)
  from a b show ?thesis ..
qed

lemma nearest_subnormal:
  assumes "0 < x" "x < 2 powi (- 1022)"
  shows "0 \<le> nearest x \<and> nearest x \<le> 2 powi (- 1022)"
proof -
  define q :: rat where "q = 2 powi (- 1074)"
  have q: "quantum x = q" unfolding q_def by (rule quantum_subnormal) (use assms in simp_all)
  have qpos: "0 < q" by (simp add: q_def)
  have hi: "2 powi (- 1022) = q * 2 ^ 52" unfolding q_def using powi_split [of "- 1022"] by simp
  have "of_int 0 \<le> x / q" using assms(1) qpos by simp
  then have "roundHalfEven (of_int 0) \<le> roundHalfEven (x / q)" by (rule roundHalfEven_mono)
  then have 1: "0 \<le> roundHalfEven (x / q)" by (simp only: roundHalfEven_of_int)
  have "x / q \<le> of_int (2 ^ 52)" using assms(2) qpos unfolding hi by (simp add: field_simps)
  then have "roundHalfEven (x / q) \<le> roundHalfEven (of_int (2 ^ 52))" by (rule roundHalfEven_mono)
  then have 2: "roundHalfEven (x / q) \<le> 2 ^ 52" by (simp only: roundHalfEven_of_int)
  have n: "nearest x = of_int (roundHalfEven (x / q)) * q" using assms(1) by (simp add: nearest_def q)
  from 1 have a: "0 \<le> nearest x" unfolding n using qpos by simp
  from 2 have "(of_int (roundHalfEven (x / q)) :: rat) \<le> of_int (2 ^ 52)" by (simp only: of_int_le_iff)
  then have b: "nearest x \<le> 2 powi (- 1022)" unfolding n hi using qpos by (simp add: mult.commute)
  from a b show ?thesis ..
qed

lemma nearest_nonneg: "0 \<le> x \<Longrightarrow> 0 \<le> nearest x"
proof (cases "x = 0")
  case False
  assume "0 \<le> x"
  with False have pos: "0 < x" by simp
  show ?thesis
  proof (cases "x < 2 powi (- 1022)")
    case True
    with nearest_subnormal [OF pos] show ?thesis by simp
  next
    case False
    then have "- 1022 \<le> binaryExponent x"
      using binaryExponent_bounds [OF pos] powi_mono [of "binaryExponent x + 1" "- 1022"]
      by (cases "- 1022 \<le> binaryExponent x") (simp, linarith)
    with nearest_normal [of "binaryExponent x" x] binaryExponent_bounds [OF pos]
    have "2 powi binaryExponent x \<le> nearest x" by simp
    moreover have "(0::rat) < 2 powi binaryExponent x" by simp
    ultimately show ?thesis by linarith
  qed
qed simp


lemma exponent_floor:
  assumes "0 < x" "\<not> x < 2 powi (- 1022)"
  shows "- 1022 \<le> binaryExponent x"
proof (rule ccontr)
  assume "\<not> - 1022 \<le> binaryExponent x"
  then have "(2::rat) powi (binaryExponent x + 1) \<le> 2 powi (- 1022)" by (intro powi_mono) simp
  with binaryExponent_bounds [OF assms(1)] assms(2) show False by linarith
qed

lemma nearest_mono_pos:
  assumes "0 < x" "x \<le> y"
  shows "nearest x \<le> nearest y"
proof -
  from assms have ypos: "0 < y" by simp
  have xn: "x \<noteq> 0" and yn: "y \<noteq> 0" using assms by simp_all
  show ?thesis
  proof (cases "quantum x = quantum y")
    case True
    have "x / quantum y \<le> y / quantum y"
      using assms(2) less_imp_le [OF quantum_pos [of y]] by (rule divide_right_mono)
    then have "roundHalfEven (x / quantum y) \<le> roundHalfEven (y / quantum y)"
      by (rule roundHalfEven_mono)
    then have "(of_int (roundHalfEven (x / quantum y)) :: rat) \<le> of_int (roundHalfEven (y / quantum y))"
      by (simp only: of_int_le_iff)
    then show ?thesis using xn yn True by (simp add: nearest_def)
  next
    case False
    have ynormal: "\<not> y < 2 powi (- 1022)"
    proof
      assume "y < 2 powi (- 1022)"
      with assms have "x < 2 powi (- 1022)" by simp
      with \<open>y < 2 powi (- 1022)\<close> assms ypos have "quantum x = quantum y"
        by (simp add: quantum_subnormal)
      with False show False ..
    qed
    define ey where "ey = binaryExponent y"
    have ey: "- 1022 \<le> ey" "2 powi ey \<le> y" "y < 2 powi (ey + 1)"
      using exponent_floor [OF ypos ynormal] binaryExponent_bounds [OF ypos] by (simp_all add: ey_def)
    have ylow: "2 powi ey \<le> nearest y" using nearest_normal [OF ey(2,3,1)] by simp
    show ?thesis
    proof (cases "x < 2 powi (- 1022)")
      case True
      with nearest_subnormal [OF assms(1)] have "nearest x \<le> 2 powi (- 1022)" by simp
      also have "\<dots> \<le> 2 powi ey" using ey(1) by (rule powi_mono)
      finally show ?thesis using ylow by simp
    next
      case xnormal: False
      define ex where "ex = binaryExponent x"
      have ex: "- 1022 \<le> ex" "2 powi ex \<le> x" "x < 2 powi (ex + 1)"
        using exponent_floor [OF assms(1) xnormal] binaryExponent_bounds [OF assms(1)]
        by (simp_all add: ex_def)
      have "ex \<noteq> ey"
      proof
        assume "ex = ey"
        then have "quantum x = quantum y"
          using quantum_normal [of ex x] quantum_normal [of ey y] ex ey assms ypos by simp
        with False show False ..
      qed
      moreover have "\<not> ey < ex"
      proof
        assume "ey < ex"
        then have "(2::rat) powi (ey + 1) \<le> 2 powi ex" by (intro powi_mono) simp
        with ex(2) ey(3) assms(2) show False by linarith
      qed
      ultimately have "ex + 1 \<le> ey" by simp
      then have "(2::rat) powi (ex + 1) \<le> 2 powi ey" by (rule powi_mono)
      moreover have "nearest x \<le> 2 powi (ex + 1)" using nearest_normal [OF ex(2,3,1)] by simp
      ultimately show ?thesis using ylow by linarith
    qed
  qed
qed

lemma nearest_mono:
  assumes "x \<le> y"
  shows "nearest x \<le> nearest y"
proof -
  consider "0 < x" | "x \<le> 0" "0 \<le> y" | "y < 0" by linarith
  then show ?thesis
  proof cases
    case 1
    then show ?thesis using assms by (rule nearest_mono_pos)
  next
    case 2
    from 2(1) have "0 \<le> nearest (- x)" by (intro nearest_nonneg) simp
    then have "nearest x \<le> 0" by (simp add: nearest_minus)
    moreover from 2(2) have "0 \<le> nearest y" by (rule nearest_nonneg)
    ultimately show ?thesis by simp
  next
    case 3
    then have "0 < - y" "- y \<le> - x" using assms by simp_all
    then have "nearest (- y) \<le> nearest (- x)" by (rule nearest_mono_pos)
    then show ?thesis by (simp add: nearest_minus)
  qed
qed

lemma nearest_error: "\<bar>nearest x - x\<bar> \<le> quantum x / 2"
proof (cases "x = 0")
  case False
  define q where "q = quantum x"
  have qpos: "0 < q" by (simp add: q_def)
  define n :: rat where "n = of_int (roundHalfEven (x / q))"
  from roundHalfEven_near [of "x / q"] have "\<bar>n - x / q\<bar> \<le> 1 / 2"
    unfolding n_def by linarith
  then have "\<bar>n - x / q\<bar> * q \<le> 1 / 2 * q" using qpos by (simp only: mult_le_cancel_right_pos)
  moreover have "\<bar>n - x / q\<bar> * q = \<bar>n * q - x\<bar>"
  proof -
    have "\<bar>n - x / q\<bar> * q = \<bar>n - x / q\<bar> * \<bar>q\<bar>" using qpos by simp
    also have "\<dots> = \<bar>(n - x / q) * q\<bar>" by (simp only: abs_mult)
    also have "(n - x / q) * q = n * q - x" using qpos by (simp add: left_diff_distrib)
    finally show ?thesis .
  qed
  ultimately have "\<bar>n * q - x\<bar> \<le> q / 2" by simp
  then show ?thesis using False by (simp add: nearest_def n_def q_def)
qed (simp add: less_imp_le)

lemma nearest_fixed:
  assumes "x = of_int n * quantum x"
  shows "nearest x = x"
proof (cases "x = 0")
  case False
  have "x / quantum x = of_int n" using assms quantum_pos [of x]
    by (metis nonzero_eq_divide_eq less_irrefl)
  then show ?thesis using False assms by (simp add: nearest_def)
qed simp


lemma floor_rat_numeral [simp]: "\<lfloor>numeral a / numeral b :: rat\<rfloor> = numeral a div numeral b"
  using floor_divide_of_int_eq [of "numeral a" "numeral b", where ?'a = rat] by simp

lemma floor_rat_neg_numeral [simp]:
  "\<lfloor>- (numeral a / numeral b) :: rat\<rfloor> = - numeral a div numeral b"
  using floor_divide_of_int_eq [of "- numeral a" "numeral b", where ?'a = rat] by simp

lemma ceiling_rat_numeral [simp]:
  "\<lceil>numeral a / numeral b :: rat\<rceil> = - (- numeral a div numeral b)"
  using floor_divide_of_int_eq [of "- numeral a" "numeral b", where ?'a = rat]
  by (simp add: ceiling_def)

lemmas double_ev = binaryExponent_def quantum_def roundHalfEven_def nearest_def
  roundToDouble_def literal_def log2Floor.simps Let_def

lemma nearest_pos:
  assumes "2 powi (- 1074) \<le> x"
  shows "0 < nearest x"
proof -
  have p: "(0::rat) < 2 powi (- 1074)" by simp
  with assms have pos: "0 < x" by linarith
  show ?thesis
  proof (cases "x < 2 powi (- 1022)")
    case True
    then have q: "quantum x = 2 powi (- 1074)" using pos by (simp add: quantum_subnormal)
    have "of_int 1 \<le> x / 2 powi (- 1074)" using assms p by (simp add: pos_le_divide_eq)
    then have "roundHalfEven (of_int 1) \<le> roundHalfEven (x / 2 powi (- 1074))"
      by (rule roundHalfEven_mono)
    then have "1 \<le> roundHalfEven (x / 2 powi (- 1074))" by (simp only: roundHalfEven_of_int)
    then have "(0::rat) < of_int (roundHalfEven (x / 2 powi (- 1074)))" by simp
    then show ?thesis using pos p by (simp add: nearest_def q)
  next
    case False
    from exponent_floor [OF pos False] binaryExponent_bounds [OF pos]
      nearest_normal [of "binaryExponent x" x]
    have "2 powi binaryExponent x \<le> nearest x" by simp
    moreover have "(0::rat) < 2 powi binaryExponent x" by simp
    ultimately show ?thesis by linarith
  qed
qed

lemma nearest_abs: "nearest \<bar>x\<bar> = \<bar>nearest x\<bar>"
proof (cases "0 \<le> x")
  case True
  with nearest_nonneg [OF True] show ?thesis by simp
next
  case False
  then have "0 \<le> nearest (- x)" by (intro nearest_nonneg) simp
  with False show ?thesis by (simp add: nearest_minus)
qed

lemma nearest_power: "- 1022 \<le> e \<Longrightarrow> nearest (2 powi e) = 2 powi e"
proof -
  assume e: "- 1022 \<le> e"
  have q: "quantum (2 powi e) = 2 powi (e - 52)"
    by (rule quantum_normal) (use e in \<open>simp_all add: powi_strict_mono\<close>)
  have "2 powi e = of_int (2 ^ 52) * quantum (2 powi e)"
    unfolding q using powi_split [of e] by simp
  then show ?thesis by (rule nearest_fixed)
qed

lemma no_overflow:
  assumes "\<bar>x\<bar> < 2 ^ 1024 - 2 ^ 970"
  shows "\<bar>nearest x\<bar> < 2 ^ 1024"
proof (cases "\<bar>x\<bar> < 2 powi 1023")
  case True
  then have "nearest \<bar>x\<bar> \<le> nearest (2 powi 1023)" by (intro nearest_mono) simp
  also have "\<dots> = 2 powi 1023" by (rule nearest_power) simp
  also have "\<dots> < (2::rat) ^ 1024" by simp
  finally show ?thesis by (simp only: nearest_abs)
next
  case False
  have "quantum \<bar>x\<bar> = 2 powi (1023 - 52)"
    by (rule quantum_normal) (use False assms in simp_all)
  then have q: "quantum \<bar>x\<bar> = 2 ^ 971" by simp
  from nearest_error [of "\<bar>x\<bar>"] have "nearest \<bar>x\<bar> \<le> \<bar>x\<bar> + 2 ^ 971 / 2"
    unfolding q by linarith
  with assms show ?thesis unfolding nearest_abs by simp
qed

lemma roundToDouble_Finite:
  "\<bar>x\<bar> < 2 ^ 1024 - 2 ^ 970 \<Longrightarrow> roundToDouble x = Finite (nearest x)"
  using no_overflow [of x] by (auto simp: roundToDouble_def Let_def)

lemma nearest_small: "nearest 0 = 0" "nearest 1 = 1" "nearest 100 = 100" "nearest 101 = 101"
  "nearest (1 - 1 / 2 ^ 53) = 1 - 1 / 2 ^ 53"
  by (simp_all add: double_ev)


lemma isDouble_nearest: "isDouble x \<Longrightarrow> nearest x = x"
  by (auto simp: isDouble_def roundToDouble_def Let_def split: if_splits)

lemma isDouble_less: "isDouble x \<Longrightarrow> \<bar>x\<bar> < 2 ^ 1024"
  by (auto simp: isDouble_def roundToDouble_def Let_def split: if_splits)

lemma roundHalfEven_0 [simp]: "roundHalfEven 0 = 0"
  using roundHalfEven_of_int [of 0] by simp

lemma isDouble_multiple: "isDouble x \<Longrightarrow> x = of_int (roundHalfEven (x / quantum x)) * quantum x"
  using isDouble_nearest [of x] by (cases "x = 0") (simp_all add: nearest_def)

lemma isDouble_abs: "isDouble x \<Longrightarrow> isDouble \<bar>x\<bar>"
proof -
  assume d: "isDouble x"
  from isDouble_nearest [OF d] have n: "nearest \<bar>x\<bar> = \<bar>x\<bar>" by (simp add: nearest_abs)
  from isDouble_less [OF d] show ?thesis by (simp add: isDouble_def roundToDouble_def Let_def n)
qed

lemma isDouble_max:
  assumes "isDouble x"
  shows "\<bar>x\<bar> \<le> 2 ^ 1024 - 2 ^ 971"
proof (cases "\<bar>x\<bar> < 2 powi 1023")
  case True
  then show ?thesis by simp
next
  case False
  define b where "b = \<bar>x\<bar>"
  have d: "isDouble b" unfolding b_def using assms by (rule isDouble_abs)
  have lt: "b < 2 ^ 1024" using isDouble_less [OF assms] by (simp add: b_def)
  have "quantum b = 2 powi (1023 - 52)"
    by (rule quantum_normal) (use False lt in \<open>simp_all add: b_def\<close>)
  then have q: "quantum b = 2 ^ 971" by simp
  define n where "n = roundHalfEven (b / quantum b)"
  define c :: rat where "c = 2 ^ 971"
  have c: "0 < c" by (simp add: c_def)
  have top: "(2::rat) ^ 1024 = of_int (2 ^ 53) * c" by (simp add: c_def)
  have b: "b = of_int n * c" using isDouble_multiple [OF d] by (simp add: n_def q c_def)
  have "(of_int n :: rat) * c < of_int (2 ^ 53) * c" using lt unfolding b top .
  then have "(of_int n :: rat) < of_int (2 ^ 53)" using c by (simp only: mult_less_cancel_right_pos)
  then have "n < 2 ^ 53" by (simp only: of_int_less_iff)
  then have "n \<le> 2 ^ 53 - 1" by simp
  then have "(of_int n :: rat) \<le> of_int (2 ^ 53 - 1)" by (simp only: of_int_le_iff)
  then have "(of_int n :: rat) * c \<le> of_int (2 ^ 53 - 1) * c"
    using c by (simp only: mult_le_cancel_right_pos)
  then have "b \<le> of_int (2 ^ 53 - 1) * c" unfolding b .
  also have "of_int (2 ^ 53 - 1) * c = 2 ^ 1024 - 2 ^ 971" by (simp add: c_def)
  finally show ?thesis by (simp add: b_def)
qed

lemma fadd_Finite:
  assumes "\<bar>x + y\<bar> < 2 ^ 1024 - 2 ^ 970"
  shows "fadd (Finite x) (Finite y) = Finite (nearest (x + y))"
  using roundToDouble_Finite [OF assms] by simp


lemma quantum_upper:
  assumes "0 < y"
  shows "y < quantum y * 2 ^ 53"
proof (cases "y < 2 powi (- 1022)")
  case True
  have q: "quantum y = 2 powi (- 1074)" using True assms by (simp add: quantum_subnormal)
  have "(2::rat) powi (- 1022) = 2 powi (- 1074) * 2 ^ 52" using powi_split [of "- 1022"] by simp
  with True have "y < 2 powi (- 1074) * 2 ^ 52" by simp
  also have "\<dots> \<le> 2 powi (- 1074) * 2 ^ 53" by simp
  finally show ?thesis unfolding q .
next
  case False
  define e where "e = binaryExponent y"
  have e: "- 1022 \<le> e" "2 powi e \<le> y" "y < 2 powi (e + 1)"
    using exponent_floor [OF assms False] binaryExponent_bounds [OF assms] by (simp_all add: e_def)
  have q: "quantum y = 2 powi (e - 52)"
    by (rule quantum_normal) (use e assms in simp_all)
  have "(2::rat) powi (e + 1) = 2 powi (e - 52) * 2 ^ 53"
    unfolding powi_Suc by (subst powi_split) simp
  with e(3) show ?thesis unfolding q by simp
qed

lemma multiple_gap:
  fixes q :: rat
  assumes "0 < q" "of_int m * q < of_int n * q"
  shows "of_int m * q + q \<le> of_int n * q"
proof -
  from assms have "(of_int m :: rat) < of_int n" by (simp only: mult_less_cancel_right_pos)
  then have "m + 1 \<le> n" by simp
  then have "(of_int (m + 1) :: rat) \<le> of_int n" by (simp only: of_int_le_iff)
  then have "(of_int (m + 1) :: rat) * q \<le> of_int n * q"
    using assms(1) by (simp only: mult_le_cancel_right_pos)
  then show ?thesis by (simp add: distrib_right)
qed

lemma double_gap:
  assumes "isDouble x" "isDouble y" "0 < x" "x < y"
  shows "x \<le> y * (1 - 1 / 2 ^ 53)"
proof -
  from assms have ypos: "0 < y" by simp
  define qx where "qx = quantum x"
  define qy where "qy = quantum y"
  define m where "m = roundHalfEven (x / qx)"
  define n where "n = roundHalfEven (y / qy)"
  have x: "x = of_int m * qx" using isDouble_multiple [OF assms(1)] by (simp add: m_def qx_def)
  have y: "y = of_int n * qy" using isDouble_multiple [OF assms(2)] by (simp add: n_def qy_def)
  have qxpos: "0 < qx" and qypos: "0 < qy" by (simp_all add: qx_def qy_def)
  have up: "y < qy * 2 ^ 53" unfolding qy_def using ypos by (rule quantum_upper)
  then have small: "y / 2 ^ 53 \<le> qy" by (simp add: field_simps)
  have goal: "x \<le> y * (1 - 1 / 2 ^ 53)" if "x + qy \<le> y"
  proof -
    from that small have "x \<le> y - y / 2 ^ 53" by linarith
    then show ?thesis by (simp add: right_diff_distrib)
  qed
  show ?thesis
  proof (cases "qx = qy")
    case True
    from assms(4) have "of_int m * qy < of_int n * qy" using x y True by simp
    from multiple_gap [OF qypos this] have "x + qy \<le> y" using x y True by simp
    then show ?thesis by (rule goal)
  next
    case False
    have ynormal: "\<not> y < 2 powi (- 1022)"
    proof
      assume a: "y < 2 powi (- 1022)"
      with assms have "x < 2 powi (- 1022)" by simp
      with a assms ypos have "quantum x = quantum y" by (simp add: quantum_subnormal)
      with False show False by (simp add: qx_def qy_def)
    qed
    define E where "E = binaryExponent y"
    define B :: rat where "B = 2 powi E"
    have E: "- 1022 \<le> E" "B \<le> y" "y < 2 powi (E + 1)"
      using exponent_floor [OF ypos ynormal] binaryExponent_bounds [OF ypos]
      by (simp_all add: E_def B_def)
    have qy: "qy = 2 powi (E - 52)"
      unfolding qy_def by (rule quantum_normal) (use E ypos in \<open>simp_all add: B_def\<close>)
    have B: "B = qy * 2 ^ 52" unfolding B_def qy by (rule powi_split)
    have Bpos: "0 < B" by (simp add: B_def)
    have xB: "x < B"
    proof (rule ccontr)
      assume "\<not> x < B"
      then have "2 powi E \<le> \<bar>x\<bar>" "\<bar>x\<bar> < 2 powi (E + 1)" using assms E by (simp_all add: B_def)
      from quantum_normal [OF this E(1)] have "qx = qy" by (simp add: qx_def qy)
      with False show False ..
    qed
    show ?thesis
    proof (cases "y = B")
      case yB: False
      have "B < y" using E(2) yB by simp
      then have "of_int (2 ^ 52) * qy < of_int n * qy"
        unfolding B y by (simp add: mult.commute)
      from multiple_gap [OF qypos this] have "B + qy \<le> y" unfolding B y by (simp add: mult.commute)
      with xB have "x + qy \<le> y" by simp
      then show ?thesis by (rule goal)
    next
      case yB: True
      have half: "B * (1 - 1 / 2 ^ 53) = B - qy / 2" unfolding B by (simp add: right_diff_distrib)
      show ?thesis
      proof (cases "x < B / 2")
        case True
        have "qy \<le> B" unfolding B using qypos by simp
        with True have "x \<le> B - qy / 2" by linarith
        then show ?thesis unfolding yB half .
      next
        case xhalf: False
        have Bh: "B / 2 = 2 powi (E - 1)"
          unfolding B_def using powi_Suc [of "E - 1"] by simp
        have lo: "2 powi (E - 1) \<le> \<bar>x\<bar>" and hi: "\<bar>x\<bar> < 2 powi (E - 1 + 1)"
          using xhalf xB assms(3) unfolding Bh by (simp_all add: B_def)
        have "- 1022 \<le> E - 1"
        proof (rule ccontr)
          assume "\<not> - 1022 \<le> E - 1"
          with E(1) have E0: "E = - 1022" by simp
          with xB assms(3) have "quantum x = 2 powi (- 1074)"
            by (intro quantum_subnormal) (simp_all add: B_def)
          with False qy E0 show False by (simp add: qx_def)
        qed
        from quantum_normal [OF lo hi this] have qx: "qx = 2 powi (E - 1 - 52)" by (simp add: qx_def)
        have qq: "qy = 2 * qx" unfolding qx qy using powi_Suc [of "E - 1 - 52"] by simp
        have B2: "B = of_int (2 ^ 53) * qx" unfolding B qq by simp
        have "of_int m * qx < of_int (2 ^ 53) * qx" using xB unfolding x B2 .
        from multiple_gap [OF qxpos this] have "x + qx \<le> B" unfolding x B2 .
        then have "x \<le> B - qy / 2" unfolding qq by simp
        then show ?thesis unfolding yB half .
      qed
    qed
  qed
qed


lemma nearest_idem_pos:
  assumes "0 < x"
  shows "nearest (nearest x) = nearest x"
proof -
  define y where "y = nearest x"
  have yq: "y = of_int (roundHalfEven (x / quantum x)) * quantum x"
    using assms by (simp add: y_def nearest_def)
  show ?thesis
  proof (cases "x < 2 powi (- 1022)")
    case True
    from nearest_subnormal [OF assms True] have r: "0 \<le> y" "y \<le> 2 powi (- 1022)"
      by (simp_all add: y_def)
    consider "y = 0" | "y = 2 powi (- 1022)" | "0 < y" "y < 2 powi (- 1022)" using r by linarith
    then have "nearest y = y"
    proof cases
      case 1
      then show ?thesis by simp
    next
      case 2
      show ?thesis unfolding 2 by (rule nearest_power) simp
    next
      case 3
      then have "quantum y = quantum x" using True assms by (simp add: quantum_subnormal)
      with yq have "y = of_int (roundHalfEven (x / quantum x)) * quantum y" by simp
      then show ?thesis by (rule nearest_fixed)
    qed
    then show ?thesis by (simp add: y_def)
  next
    case False
    define e where "e = binaryExponent x"
    have e: "- 1022 \<le> e" "2 powi e \<le> x" "x < 2 powi (e + 1)"
      using exponent_floor [OF assms False] binaryExponent_bounds [OF assms] by (simp_all add: e_def)
    from nearest_normal [OF e(2,3,1)] have r: "2 powi e \<le> y" "y \<le> 2 powi (e + 1)"
      by (simp_all add: y_def)
    have "nearest y = y"
    proof (cases "y = 2 powi (e + 1)")
      case True
      show ?thesis unfolding True by (rule nearest_power) (use e(1) in simp)
    next
      case False
      with r have lt: "y < 2 powi (e + 1)" by simp
      have "(0::rat) < 2 powi e" by simp
      with r(1) have ypos: "0 < y" by linarith
      have "quantum y = 2 powi (e - 52)"
        by (rule quantum_normal) (use r(1) lt e(1) ypos in simp_all)
      moreover have "quantum x = 2 powi (e - 52)"
        by (rule quantum_normal) (use e assms in simp_all)
      ultimately have "y = of_int (roundHalfEven (x / quantum x)) * quantum y" using yq by simp
      then show ?thesis by (rule nearest_fixed)
    qed
    then show ?thesis by (simp add: y_def)
  qed
qed

lemma nearest_idem: "nearest (nearest x) = nearest x"
proof -
  consider "0 < x" | "x = 0" | "0 < - x" by linarith
  then show ?thesis
  proof cases
    case 1
    then show ?thesis by (rule nearest_idem_pos)
  next
    case 2
    then show ?thesis by simp
  next
    case 3
    from nearest_idem_pos [OF 3] show ?thesis by (simp add: nearest_minus)
  qed
qed

lemma isDouble_iff: "isDouble x \<longleftrightarrow> nearest x = x \<and> \<bar>x\<bar> < 2 ^ 1024"
  by (auto simp: isDouble_def roundToDouble_def Let_def)

lemma roundToDouble_isDouble: "roundToDouble x = Finite y \<Longrightarrow> isDouble y"
  by (auto simp: roundToDouble_def Let_def isDouble_iff nearest_idem split: if_splits)

lemma isDouble_nearest_result: "\<bar>x\<bar> < 2 ^ 1024 - 2 ^ 970 \<Longrightarrow> isDouble (nearest x)"
  using no_overflow [of x] by (simp add: isDouble_iff nearest_idem)

lemma fdiv_Finite:
  assumes "y \<noteq> 0" "\<bar>x / y\<bar> < 2 ^ 1024 - 2 ^ 970"
  shows "fdiv (Finite x) (Finite y) = Finite (nearest (x / y))"
  using roundToDouble_Finite [OF assms(2)] assms(1) by simp

lemma fmul_Finite:
  assumes "\<bar>x * y\<bar> < 2 ^ 1024 - 2 ^ 970"
  shows "fmul (Finite x) (Finite y) = Finite (nearest (x * y))"
  using roundToDouble_Finite [OF assms] by simp

lemma nearest_unit:
  assumes "0 \<le> t" "t \<le> 1"
  shows "0 \<le> nearest t" "nearest t \<le> 1" "roundToDouble t = Finite (nearest t)"
    "isDouble (nearest t)"
proof -
  show "0 \<le> nearest t" using assms(1) by (rule nearest_nonneg)
  from nearest_mono [OF assms(2)] show "nearest t \<le> 1" by (simp add: nearest_small)
  from assms have b: "\<bar>t\<bar> < 2 ^ 1024 - 2 ^ 970" by simp
  then show "roundToDouble t = Finite (nearest t)" by (rule roundToDouble_Finite)
  from b show "isDouble (nearest t)" by (rule isDouble_nearest_result)
qed

lemma plus_hundred:
  assumes "isDouble b" "0 < b"
  shows "roundToDouble (b + 100) = Finite (nearest (b + 100))"
    and "isDouble (nearest (b + 100))"
    and "100 \<le> nearest (b + 100)" and "b \<le> nearest (b + 100)"
    and "nearest (b + 100) \<le> 2 ^ 1024 - 2 ^ 971"
proof -
  from isDouble_max [OF assms(1)] assms(2) have m: "b \<le> 2 ^ 1024 - 2 ^ 971" by simp
  then have r: "\<bar>b + 100\<bar> < 2 ^ 1024 - 2 ^ 970" using assms(2) by simp
  then show "roundToDouble (b + 100) = Finite (nearest (b + 100))" by (rule roundToDouble_Finite)
  from r show d: "isDouble (nearest (b + 100))" by (rule isDouble_nearest_result)
  have "nearest 100 \<le> nearest (b + 100)" using assms(2) by (intro nearest_mono) simp
  then show "100 \<le> nearest (b + 100)" by (simp add: nearest_small)
  have "nearest b \<le> nearest (b + 100)" by (intro nearest_mono) simp
  then show "b \<le> nearest (b + 100)" by (simp add: isDouble_nearest [OF assms(1)])
  from isDouble_max [OF d] show "nearest (b + 100) \<le> 2 ^ 1024 - 2 ^ 971" by simp
qed

lemma tiny_quotient:
  assumes "1 \<le> x" "0 < y" "y \<le> 2 ^ 1024 - 2 ^ 971"
  shows "0 < nearest (x / y)"
proof (rule nearest_pos)
  have "(2::rat) powi (- 1074) = 1 / 2 ^ 1074" by (simp add: power_int_minus_divide)
  also have "\<dots> \<le> 1 / 2 ^ 1024" by (intro divide_left_mono) simp_all
  also have "\<dots> \<le> 1 / y" using assms(2,3) by (intro divide_left_mono) simp_all
  also have "\<dots> \<le> x / y" using assms(1,2) by (intro divide_right_mono) simp_all
  finally show "2 powi (- 1074) \<le> x / y" .
qed

lemma raw_probability_positive:
  assumes "isDouble a" "0 < a"
  defines "y \<equiv> nearest (a + 100)"
  shows "americanToRawProbability a = Inr (Finite (nearest (100 / y)))"
    and "isDouble (nearest (100 / y))" and "0 \<le> nearest (100 / y)" and "nearest (100 / y) \<le> 1"
    and "1 \<le> a \<Longrightarrow> 0 < nearest (100 / y) \<and> nearest (100 / y) < 1"
proof -
  note h = plus_hundred [OF assms(1,2), folded y_def]
  from h(3) have ypos: "0 < y" by simp
  have t: "0 \<le> 100 / y" "100 / y \<le> 1" using h(3) ypos by simp_all
  note u = nearest_unit [OF t]
  show "americanToRawProbability a = Inr (Finite (nearest (100 / y)))"
    using assms(2) ypos by (simp add: americanToRawProbability_def h(1) u(3))
  show "isDouble (nearest (100 / y))" by (rule u(4))
  show "0 \<le> nearest (100 / y)" by (rule u(1))
  show "nearest (100 / y) \<le> 1" by (rule u(2))
  show "0 < nearest (100 / y) \<and> nearest (100 / y) < 1" if "1 \<le> a"
  proof
    show "0 < nearest (100 / y)" by (rule tiny_quotient) (use ypos h(5) in simp_all)
    have "nearest 101 \<le> y" unfolding y_def using that by (intro nearest_mono) simp
    then have "101 \<le> y" by (simp add: nearest_small)
    then have "100 / y \<le> 100 / 101" by (intro divide_left_mono) simp_all
    also have "\<dots> \<le> (1 - 1 / 2 ^ 53 :: rat)" by simp
    finally have "nearest (100 / y) \<le> nearest (1 - 1 / 2 ^ 53)" by (rule nearest_mono)
    then have "nearest (100 / y) \<le> 1 - 1 / 2 ^ 53" by (simp only: nearest_small)
    then show "nearest (100 / y) < 1" by simp
  qed
qed

lemma raw_probability_negative:
  assumes "isDouble a" "a < 0"
  defines "b \<equiv> \<bar>a\<bar>"
  defines "y \<equiv> nearest (b + 100)"
  shows "americanToRawProbability a = Inr (Finite (nearest (b / y)))"
    and "isDouble (nearest (b / y))" and "0 \<le> nearest (b / y)" and "nearest (b / y) \<le> 1"
    and "a \<le> - 1 \<Longrightarrow> 0 < nearest (b / y)"
    and "- (2 ^ 60) < a \<Longrightarrow> nearest (b / y) < 1"
proof -
  have bd: "isDouble b" unfolding b_def using assms(1) by (rule isDouble_abs)
  have bpos: "0 < b" using assms(2) by (simp add: b_def)
  note h = plus_hundred [OF bd bpos, folded y_def]
  from h(3) have ypos: "0 < y" by simp
  have t: "0 \<le> b / y" "b / y \<le> 1" using h(4) ypos bpos by simp_all
  note u = nearest_unit [OF t]
  show "americanToRawProbability a = Inr (Finite (nearest (b / y)))"
    using assms(2) ypos
    by (simp add: americanToRawProbability_def Let_def b_def [symmetric] h(1) u(3))
  show "isDouble (nearest (b / y))" by (rule u(4))
  show "0 \<le> nearest (b / y)" by (rule u(1))
  show "nearest (b / y) \<le> 1" by (rule u(2))
  show "0 < nearest (b / y)" if "a \<le> - 1"
    by (rule tiny_quotient) (use that ypos h(5) in \<open>simp_all add: b_def\<close>)
  show "nearest (b / y) < 1" if "- (2 ^ 60) < a"
  proof -
    from that assms(2) have b60: "b < 2 ^ 60" by (simp add: b_def)
    have blt: "b < y"
    proof (cases "b + 100 < 2 ^ 60")
      case True
      have pos: "0 < b + 100" using bpos by simp
      define e where "e = binaryExponent (b + 100)"
      have e: "2 powi e \<le> b + 100" "b + 100 < 2 powi (e + 1)"
        using binaryExponent_bounds [OF pos] by (simp_all add: e_def)
      have "\<not> 60 \<le> e"
      proof
        assume "60 \<le> e"
        then have "(2::rat) powi 60 \<le> 2 powi e" by (rule powi_mono)
        with e(1) True show False by simp
      qed
      then have e59: "e \<le> 59" by simp
      have "\<not> e < 6"
      proof
        assume "e < 6"
        then have "(2::rat) powi (e + 1) \<le> 2 powi 6" by (intro powi_mono) simp
        with e(2) bpos show False by simp
      qed
      then have e6: "- 1022 \<le> e" by simp
      have "quantum (b + 100) = 2 powi (e - 52)"
        by (rule quantum_normal) (use e e6 pos in simp_all)
      also have "\<dots> \<le> 2 powi 7" using e59 by (intro powi_mono) simp
      finally have "quantum (b + 100) \<le> 128" by simp
      with nearest_error [of "b + 100"] show ?thesis unfolding y_def by linarith
    next
      case False
      have np: "nearest (2 powi 60) = 2 powi 60" by (rule nearest_power) simp
      from False have "nearest (2 powi 60) \<le> y" unfolding y_def by (intro nearest_mono) simp
      then have "2 powi 60 \<le> y" unfolding np .
      with b60 show ?thesis by simp
    qed
    from double_gap [OF bd h(2) bpos blt] have "b \<le> y * (1 - 1 / 2 ^ 53)" .
    then have "b / y \<le> 1 - 1 / 2 ^ 53" using ypos by (simp add: pos_divide_le_eq mult.commute)
    then have "nearest (b / y) \<le> nearest (1 - 1 / 2 ^ 53)" by (rule nearest_mono)
    then have "nearest (b / y) \<le> 1 - 1 / 2 ^ 53" by (simp only: nearest_small)
    then show ?thesis by simp
  qed
qed


lemma roundHalfEven_unique:
  assumes "\<bar>t - of_int n\<bar> < 1 / 2"
  shows "roundHalfEven t = n"
proof -
  from roundHalfEven_near [of t] assms
  have "\<bar>(of_int (roundHalfEven t) :: rat) - of_int n\<bar> < 1" by linarith
  then have "\<bar>(of_int (roundHalfEven t - n) :: rat)\<bar> < of_int 1" by simp
  then have "\<bar>roundHalfEven t - n\<bar> < 1" by (simp only: of_int_abs [symmetric] of_int_less_iff)
  then show ?thesis by simp
qed

lemma absorbed_hundred:
  assumes "isDouble b" "2 ^ 60 \<le> b"
  shows "nearest (b + 100) = b"
proof -
  from assms(2) have bpos: "0 < b" by simp
  define e where "e = binaryExponent b"
  have e: "2 powi e \<le> b" "b < 2 powi (e + 1)"
    using binaryExponent_bounds [OF bpos] by (simp_all add: e_def)
  have "\<not> e < 60"
  proof
    assume "e < 60"
    then have "(2::rat) powi (e + 1) \<le> 2 powi 60" by (intro powi_mono) simp
    with e(2) assms(2) show False by simp
  qed
  then have e60: "60 \<le> e" by simp
  define q :: rat where "q = 2 powi (e - 52)"
  have qb: "quantum b = q" unfolding q_def by (rule quantum_normal) (use e e60 bpos in simp_all)
  have "(2::rat) powi 8 \<le> q" unfolding q_def using e60 by (intro powi_mono) simp
  then have q256: "256 \<le> q" by simp
  then have qpos: "0 < q" by simp
  define n where "n = roundHalfEven (b / q)"
  have b: "b = of_int n * q" using isDouble_multiple [OF assms(1)] by (simp add: n_def qb)
  have top: "2 powi (e + 1) = of_int (2 ^ 53) * q"
    unfolding powi_Suc q_def by (subst powi_split) simp
  have "of_int n * q < of_int (2 ^ 53) * q" using e(2) unfolding b top .
  from multiple_gap [OF qpos this] have "b + q \<le> 2 powi (e + 1)" unfolding b top .
  with q256 have hi: "b + 100 < 2 powi (e + 1)" by simp
  have qs: "quantum (b + 100) = q"
    unfolding q_def by (rule quantum_normal) (use e hi e60 bpos in simp_all)
  have "(b + 100) / q = of_int n + 100 / q" using qpos by (simp add: b add_divide_distrib)
  moreover have "0 \<le> 100 / q" "100 / q < 1 / 2" using q256 qpos by (simp_all add: field_simps)
  ultimately have "\<bar>(b + 100) / q - of_int n\<bar> < 1 / 2" by simp
  then have r: "roundHalfEven ((b + 100) / q) = n" by (rule roundHalfEven_unique)
  have "nearest (b + 100) = of_int (roundHalfEven ((b + 100) / q)) * q"
    using bpos by (simp add: nearest_def qs)
  then show ?thesis unfolding r using b by simp
qed

lemma raw_probability_one:
  assumes "isDouble a" "a \<le> - (2 ^ 60)"
  shows "americanToRawProbability a = Inr (Finite 1)"
proof -
  from assms(2) have neg: "a < 0" by simp
  have d: "isDouble \<bar>a\<bar>" using assms(1) by (rule isDouble_abs)
  have "nearest (\<bar>a\<bar> + 100) = \<bar>a\<bar>" using d by (rule absorbed_hundred) (use assms(2) in simp)
  with raw_probability_negative(1) [OF assms(1) neg] neg show ?thesis
    by (simp add: nearest_small)
qed


lemma nearest_int_pos:
  assumes "0 < n" "n \<le> 2 ^ 53"
  shows "nearest (of_int n) = of_int n"
proof -
  define x :: rat where "x = of_int n"
  have xpos: "0 < x" and x1: "1 \<le> x" using assms(1) by (simp_all add: x_def)
  have "x \<le> of_int (2 ^ 53)" unfolding x_def using assms(2) by (simp only: of_int_le_iff)
  then have xle: "x \<le> 2 ^ 53" by simp
  define e where "e = binaryExponent x"
  have e: "2 powi e \<le> x" "x < 2 powi (e + 1)"
    using binaryExponent_bounds [OF xpos] by (simp_all add: e_def)
  have "\<not> e < 0"
  proof
    assume "e < 0"
    then have "(2::rat) powi (e + 1) \<le> 2 powi 0" by (intro powi_mono) simp
    with e(2) x1 show False by simp
  qed
  then have e0: "0 \<le> e" by simp
  have "\<not> 53 < e"
  proof
    assume "53 < e"
    then have "(2::rat) powi 53 < 2 powi e" by (rule powi_strict_mono)
    with e(1) xle show False by simp
  qed
  then have e53: "e \<le> 53" by simp
  show ?thesis
  proof (cases "e = 53")
    case True
    with e(1) xle have "x = 2 powi 53" by simp
    then show ?thesis unfolding x_def [symmetric] by (simp only:) (rule nearest_power, simp)
  next
    case False
    with e53 have k: "0 \<le> 52 - e" by simp
    have q: "quantum x = 2 powi (e - 52)" by (rule quantum_normal) (use e e0 xpos in simp_all)
    have "(2::rat) ^ nat (52 - e) * 2 powi (e - 52) = 2 powi (52 - e) * 2 powi (e - 52)"
      using k by (simp add: power_int_def)
    also have "\<dots> = 2 powi ((52 - e) + (e - 52))" by (subst power_int_add) simp_all
    finally have one: "(2::rat) ^ nat (52 - e) * 2 powi (e - 52) = 1" by simp
    have "x = of_int (n * 2 ^ nat (52 - e)) * quantum x"
      unfolding q using one by (simp add: x_def mult.assoc)
    then show ?thesis unfolding x_def [symmetric] by (rule nearest_fixed)
  qed
qed

lemma nearest_int: "\<bar>n\<bar> \<le> 2 ^ 53 \<Longrightarrow> nearest (of_int n) = of_int n"
proof -
  assume a: "\<bar>n\<bar> \<le> 2 ^ 53"
  consider "0 < n" | "n = 0" | "0 < - n" by linarith
  then show ?thesis
  proof cases
    case 1
    then show ?thesis using a by (intro nearest_int_pos) simp_all
  next
    case 2
    then show ?thesis by simp
  next
    case 3
    then have "nearest (of_int (- n)) = of_int (- n)" using a by (intro nearest_int_pos) simp_all
    then show ?thesis by (simp add: nearest_minus)
  qed
qed

lemma isDouble_int: "\<bar>n\<bar> \<le> 2 ^ 53 \<Longrightarrow> isDouble (of_int n)"
proof -
  assume a: "\<bar>n\<bar> \<le> 2 ^ 53"
  then have "(of_int \<bar>n\<bar> :: rat) \<le> of_int (2 ^ 53)" by (simp only: of_int_le_iff)
  then have "\<bar>of_int n :: rat\<bar> < 2 ^ 1024" by simp
  with nearest_int [OF a] show ?thesis by (simp add: isDouble_iff)
qed


section \<open>The probability model: results\<close>

text \<open>
  Claim C5. For a positive integer quotation \<open>a\<close> the function returns
  \<open>100 / (a + 100)\<close>, for a negative one \<open>|a| / (|a| + 100)\<close>, and it fails with
  \<open>InvalidOdds\<close> exactly when the quotation is zero. The quotient and the sum are the
  operations of the program, on doubles; for a quotation up to \<open>2^53 - 100\<close> in
  magnitude the sum is exact, and the result is the double nearest to the exact value of
  the formula.
\<close>

theorem americanToRawProbability_formula:
  fixes a :: int
  shows "(0 < a \<longrightarrow> americanToRawProbability (of_int a)
            = Inr (fdiv (Finite 100) (fadd (Finite (of_int a)) (Finite 100))))
       \<and> (a < 0 \<longrightarrow> americanToRawProbability (of_int a)
            = Inr (fdiv (Finite (of_int \<bar>a\<bar>)) (fadd (Finite (of_int \<bar>a\<bar>)) (Finite 100))))
       \<and> (americanToRawProbability (of_int a) = Inl InvalidOdds \<longleftrightarrow> a = 0)
       \<and> (0 < a \<and> a \<le> 2 ^ 53 - 100 \<longrightarrow> americanToRawProbability (of_int a)
            = Inr (roundToDouble (100 / (of_int a + 100))))
       \<and> (a < 0 \<and> - (2 ^ 53 - 100) \<le> a \<longrightarrow> americanToRawProbability (of_int a)
            = Inr (roundToDouble (of_int \<bar>a\<bar> / (of_int \<bar>a\<bar> + 100))))"
proof -
  have sum: "roundToDouble (of_int n + 100) = Finite (of_int n + 100)"
    if "0 < n" "n \<le> 2 ^ 53 - 100" for n :: int
  proof -
    from that have "\<bar>n + 100\<bar> \<le> 2 ^ 53" by simp
    from isDouble_int [OF this] show ?thesis by (simp add: isDouble_def)
  qed
  have pos: "(of_int n + 100 :: rat) \<noteq> 0" if "0 < n" for n :: int
  proof -
    from that have "(0::rat) < of_int n" by simp
    then show ?thesis by linarith
  qed
  show ?thesis
  proof (intro conjI impI)
    show "americanToRawProbability (of_int a) = Inl InvalidOdds \<longleftrightarrow> a = 0"
      by (auto simp: americanToRawProbability_def Let_def)
    show "americanToRawProbability (of_int a) = Inr (roundToDouble (100 / (of_int a + 100)))"
      if "0 < a \<and> a \<le> 2 ^ 53 - 100"
      using that sum [of a] pos [of a] by (simp add: americanToRawProbability_def)
    show "americanToRawProbability (of_int a)
            = Inr (roundToDouble (of_int \<bar>a\<bar> / (of_int \<bar>a\<bar> + 100)))"
      if "a < 0 \<and> - (2 ^ 53 - 100) \<le> a"
      using that sum [of "- a"] pos [of "- a"]
      by (simp add: americanToRawProbability_def Let_def)
  qed (simp_all add: americanToRawProbability_def Let_def)
qed

theorem americanToRawProbability_formula_witness:
  "americanToRawProbability (of_int 150) = Inr (Finite (3602879701896397 / 2 ^ 53))
   \<and> americanToRawProbability (of_int (- 150)) = Inr (Finite (5404319552844595 / 2 ^ 53))
   \<and> americanToRawProbability (of_int 0) = Inl InvalidOdds"
  using americanToRawProbability_formula [of 150]
        americanToRawProbability_formula [of "- 150"]
        americanToRawProbability_formula [of 0]
  by (simp add: double_ev)

text \<open>
  Claim C9, as stated, fails: for the integer quotation \<open>-10^19\<close> the sum
  \<open>10^19 + 100\<close> rounds to \<open>10^19\<close>, and the raw probability is exactly 1.
\<close>

theorem americanToRawProbability_bounds_counterexample:
  "americanToRawProbability (- (10 ^ 19)) = Inr (Finite 1)"
  by (simp add: americanToRawProbability_def double_ev)

text \<open>
  Claim C9, amended. For every non-zero integer quotation (an integer that is a double)
  the raw probability is strictly greater than 0 and at most 1; it is strictly less than
  1 exactly when the quotation is greater than \<open>-2^60\<close>.
\<close>

theorem americanToRawProbability_bounds:
  fixes a :: int
  assumes "a \<noteq> 0" "isDouble (of_int a)"
  shows "\<exists>p. americanToRawProbability (of_int a) = Inr (Finite p)
             \<and> 0 < p \<and> p \<le> 1 \<and> (p < 1 \<longleftrightarrow> - (2 ^ 60) < a)"
proof (cases "0 < a")
  case True
  then have "(0::rat) < of_int a" "(1::rat) \<le> of_int a" by simp_all
  from raw_probability_positive(1,4,5) [OF assms(2) this(1)] this(2) True
  show ?thesis by auto
next
  case False
  with assms(1) have neg: "(of_int a :: rat) < 0" "(of_int a :: rat) \<le> - 1" by simp_all
  note r = raw_probability_negative [OF assms(2) neg(1)]
  show ?thesis
  proof (cases "- (2 ^ 60) < a")
    case True
    then have "(of_int (- (2 ^ 60)) :: rat) < of_int a" by (simp only: of_int_less_iff)
    then have "- (2 ^ 60) < (of_int a :: rat)" by simp
    from r(1,4) r(5) [OF neg(2)] r(6) [OF this] True show ?thesis by auto
  next
    case False
    then have "a \<le> - (2 ^ 60)" by simp
    then have "(of_int a :: rat) \<le> of_int (- (2 ^ 60))" by (simp only: of_int_le_iff)
    then have "(of_int a :: rat) \<le> - (2 ^ 60)" by simp
    from raw_probability_one [OF assms(2) this] False show ?thesis by simp
  qed
qed

theorem americanToRawProbability_bounds_witness:
  "(- 110::int) \<noteq> 0 \<and> isDouble (of_int (- 110))
   \<and> (\<exists>p. americanToRawProbability (of_int (- 110)) = Inr (Finite p)
            \<and> 0 < p \<and> p \<le> 1 \<and> (p < 1 \<longleftrightarrow> - (2 ^ 60) < (- 110::int)))"
proof -
  have d: "isDouble (of_int (- 110))" by (simp add: isDouble_def double_ev)
  have n: "(- 110::int) \<noteq> 0" by simp
  from americanToRawProbability_bounds [OF n d] d n show ?thesis by blast
qed

section \<open>The parser: auxiliary facts\<close>

declare extractDigitsLoop.simps [simp del]

lemma isValidDigitArray_defaultDigits: "isValidDigitArray defaultDigits"
  by (simp add: isValidDigitArray_def defaultDigits_def DIGITS_def)

lemma extractDigitsLoop_Some:
  "extractDigitsLoop cells start = Some (s, ds) \<Longrightarrow>
     isValidDigitArray ds \<and> start \<le> s \<and> s + 10 \<le> length cells
     \<and> those (map maybeDigit (slice cells s (s + 10))) = Some ds"
proof (induction cells start rule: extractDigitsLoop.induct)
  case (1 cells start)
  show ?case
  proof (cases "start + 10 \<le> length cells")
    case False
    with "1.prems" show ?thesis by (simp add: extractDigitsLoop.simps)
  next
    case inb: True
    show ?thesis
    proof (cases "those (map maybeDigit (slice cells start (start + 10)))")
      case None
      with inb "1.prems" have "extractDigitsLoop cells (Suc start) = Some (s, ds)"
        by (simp add: extractDigitsLoop.simps)
      with "1.IH"(1) [OF inb None] show ?thesis by simp
    next
      case (Some digits)
      show ?thesis
      proof (cases "isValidDigitArray digits")
        case True
        with inb Some "1.prems" have "s = start" "ds = digits"
          by (simp_all add: extractDigitsLoop.simps)
        with inb Some True show ?thesis by simp
      next
        case False
        with inb Some "1.prems" have "extractDigitsLoop cells (Suc start) = Some (s, ds)"
          by (simp add: extractDigitsLoop.simps)
        with "1.IH"(2) [OF inb Some False] show ?thesis by simp
      qed
    qed
  qed
qed

lemma findHeader_Some:
  "findHeader rows i = Some (j, c, ds) \<Longrightarrow>
     isValidDigitArray ds \<and> i \<le> j \<and> j < i + length rows
     \<and> extractDigitsFromRow (rows ! (j - i)) = Some (c, ds)"
proof (induction rows arbitrary: i)
  case Nil
  then show ?case by simp
next
  case (Cons row rows)
  show ?case
  proof (cases "extractDigitsFromRow row")
    case None
    with Cons.prems have "findHeader rows (Suc i) = Some (j, c, ds)" by simp
    from Cons.IH [OF this] have ih: "isValidDigitArray ds" "Suc i \<le> j" "j < Suc i + length rows"
      "extractDigitsFromRow (rows ! (j - Suc i)) = Some (c, ds)" by simp_all
    from ih(2) have "j - i = Suc (j - Suc i)" by simp
    with ih show ?thesis by simp
  next
    case (Some p)
    with Cons.prems have "p = (c, ds)" "j = i" by (auto split: prod.splits)
    with Some show ?thesis
      using extractDigitsLoop_Some [of row 0 c ds] by (simp add: extractDigitsFromRow_def)
  qed
qed

lemma collectOwners_shape:
  "collectOwners c rows acc away = (os, as) \<Longrightarrow>
   list_all (\<lambda>r. length r = 10) acc \<Longrightarrow> length away = length acc \<Longrightarrow>
     list_all (\<lambda>r. length r = 10) os \<and> length as = length os"
proof (induction rows arbitrary: acc away)
  case Nil
  then show ?case by simp
next
  case (Cons row rows)
  show ?case
  proof (cases "length row < c + 10")
    case True
    with Cons.prems(1) have "collectOwners c rows acc away = (os, as)" by simp
    from Cons.IH [OF this Cons.prems(2,3)] show ?thesis .
  next
    case long: False
    show ?thesis
    proof (cases "list_all (\<lambda>cell. length cell = 0) (slice row c (c + 10))")
      case True
      with long Cons.prems(1) have "collectOwners c rows acc away = (os, as)" by simp
      from Cons.IH [OF this Cons.prems(2,3)] show ?thesis .
    next
      case False
      define acc1 where "acc1 = acc @ [map normalizeOwnerName (slice row c (c + 10))]"
      define away1 where
        "away1 = away @ [if c > 0 then maybeDigit (cellAt row (c - 1)) else None]"
      from long have len: "length (slice row c (c + 10)) = 10" by (simp add: slice_def)
      with Cons.prems(2) have a1: "list_all (\<lambda>r. length r = 10) acc1"
        by (simp add: acc1_def)
      from Cons.prems(3) have l1: "length away1 = length acc1"
        by (simp add: acc1_def away1_def)
      show ?thesis
      proof (cases "length acc1 = 10")
        case True
        with long False Cons.prems(1) have "os = acc1" "as = away1"
          by (simp_all add: acc1_def away1_def Let_def)
        with a1 l1 show ?thesis by simp
      next
        case ne: False
        with long False Cons.prems(1) have "collectOwners c rows acc1 away1 = (os, as)"
          by (simp add: acc1_def away1_def Let_def)
        from Cons.IH [OF this a1 l1] show ?thesis .
      qed
    qed
  qed
qed


lemma parse_unfold:
  "parseSquaresFromPastedText t =
     (if length (parseRows t) < 10 then Inl UnderfilledPastedInput
      else if length (fst (collectedOwners t)) \<noteq> 10 then Inl IncompleteOwnershipGrid
      else Inr \<lparr> homeTeam = homeTeam (projr (parseSquaresFromPastedText t)),
                 awayTeam = awayTeam (projr (parseSquaresFromPastedText t)),
                 homeDigits = headerDigits (findHeader (parseRows t) 0),
                 awayDigits =
                   (if isValidDigitArray (fillAwayDigits 0 (snd (collectedOwners t)))
                    then fillAwayDigits 0 (snd (collectedOwners t)) else defaultDigits),
                 owners = fst (collectedOwners t) \<rparr>)"
  by (simp add: parseSquaresFromPastedText_def collectedOwners_def headerStartCol_def
      headerOwnersStart_def headerDigits_def Let_def split: prod.splits option.splits)



lemma isValidDigitArray_iff:
  "isValidDigitArray ds \<longleftrightarrow> length ds = 10 \<and> distinct ds \<and> set ds = {0..9}"
proof
  assume v: "isValidDigitArray ds"
  then have len: "length ds = 10" and rd: "length (remdups ds) = 10"
    and rng: "list_all (\<lambda>n. 0 \<le> n \<and> n \<le> 9) ds"
    by (auto simp: isValidDigitArray_def split: if_splits)
  from len rd have "length (remdups ds) = length ds" by simp
  then have "remdups ds = ds" by (simp only: length_remdups_eq)
  then have d: "distinct ds" by (metis distinct_remdups)
  from rng have sub: "set ds \<subseteq> {0..9}" by (auto simp: list_all_iff)
  from d len have "card (set ds) = 10" by (simp add: distinct_card)
  then have "card (set ds) = card {0..9::int}" by simp
  with sub have "set ds = {0..9}" by (simp add: card_subset_eq)
  with len d show "length ds = 10 \<and> distinct ds \<and> set ds = {0..9}" by simp
next
  assume a: "length ds = 10 \<and> distinct ds \<and> set ds = {0..9}"
  then have "length (remdups ds) = 10" by (simp add: distinct_remdups_id)
  moreover from a have "list_all (\<lambda>n. 0 \<le> n \<and> n \<le> 9) ds" by (auto simp: list_all_iff)
  ultimately show "isValidDigitArray ds" using a by (simp add: isValidDigitArray_def)
qed

lemma parseRows_nonblank: "filter someCellFilled (parseRows t) = parseRows t"
  by (simp add: parseRows_def Let_def)

lemma collectedOwners_shape:
  "list_all (\<lambda>r. length r = 10) (fst (collectedOwners t))"
  using collectOwners_shape [of _ _ "[]" "[]" "fst (collectedOwners t)" "snd (collectedOwners t)"]
  by (simp add: collectedOwners_def Let_def)

lemma headerDigits_valid: "isValidDigitArray (headerDigits (findHeader rows 0))"
proof (cases "findHeader rows 0")
  case None
  then show ?thesis by (simp add: headerDigits_def isValidDigitArray_defaultDigits)
next
  case (Some p)
  obtain j c ds where p: "p = (j, c, ds)" by (cases p) auto
  with Some findHeader_Some [of rows 0 j c ds] show ?thesis by (simp add: headerDigits_def)
qed

lemma parse_Inr_fields:
  assumes "parseSquaresFromPastedText t = Inr b"
  shows "homeDigits b = headerDigits (findHeader (parseRows t) 0)"
    and "awayDigits b = (if isValidDigitArray (collectedAwayDigits t)
                         then collectedAwayDigits t else defaultDigits)"
    and "owners b = fst (collectedOwners t)"
    and "length (fst (collectedOwners t)) = 10"
    and "10 \<le> length (parseRows t)"
proof -
  from assms have ge: "\<not> length (parseRows t) < 10"
    by (subst (asm) parse_unfold) (simp split: if_splits)
  from assms ge have ten: "length (fst (collectedOwners t)) = 10"
    by (subst (asm) parse_unfold) (simp split: if_splits)
  from assms ge ten have b: "b = \<lparr> homeTeam = homeTeam (projr (parseSquaresFromPastedText t)),
                 awayTeam = awayTeam (projr (parseSquaresFromPastedText t)),
                 homeDigits = headerDigits (findHeader (parseRows t) 0),
                 awayDigits =
                   (if isValidDigitArray (fillAwayDigits 0 (snd (collectedOwners t)))
                    then fillAwayDigits 0 (snd (collectedOwners t)) else defaultDigits),
                 owners = fst (collectedOwners t) \<rparr>"
    by (subst (asm) parse_unfold) simp
  show "homeDigits b = headerDigits (findHeader (parseRows t) 0)" by (subst b) simp
  show "awayDigits b = (if isValidDigitArray (collectedAwayDigits t)
                         then collectedAwayDigits t else defaultDigits)"
    by (subst b) (simp add: collectedAwayDigits_def)
  show "owners b = fst (collectedOwners t)" by (subst b) simp
  show "length (fst (collectedOwners t)) = 10" by (rule ten)
  from ge show "10 \<le> length (parseRows t)" by simp
qed

lemma parse_axes_valid:
  assumes "parseSquaresFromPastedText t = Inr b"
  shows "isValidDigitArray (homeDigits b)" and "isValidDigitArray (awayDigits b)"
  using parse_Inr_fields(1,2) [OF assms] headerDigits_valid isValidDigitArray_defaultDigits
  by auto

lemma traverse_Inl: "traverse f xs = Inl e \<Longrightarrow> \<exists>x\<in>set xs. f x = Inl e"
  by (induction xs) (auto split: sum.splits)

lemma combineCell_Inl:
  "combineCell odds w1 w2 a h = Inl e \<Longrightarrow> e = InvalidOdds \<or> e = IncompleteOddsCoverage a h"
  by (auto simp: combineCell_def americanToRawProbability_def Let_def
           split: option.splits sum.splits if_splits)

lemma combinedRawOf_Inl:
  "combinedRawOf odds w1 w2 = Inl e \<Longrightarrow> e = InvalidOdds \<or> (\<exists>a h. e = IncompleteOddsCoverage a h)"
  unfolding combinedRawOf_def
  by (blast dest: traverse_Inl combineCell_Inl)

lemma computeSquaresAnalysis_valid_board:
  assumes "isValidDigitArray (homeDigits b)" "isValidDigitArray (awayDigits b)"
    "length (owners b) = 10" "list_all (\<lambda>row. length row = 10) (owners b)"
  shows "computeSquaresAnalysis b odds p w1 w2 \<noteq> Inl (MalformedDigitAxis ax)"
    and "computeSquaresAnalysis b odds p w1 w2 \<noteq> Inl MalformedBoardShape"
proof -
  from assms(4) have nex: "\<not> list_ex (\<lambda>row. length row \<noteq> 10) (owners b)"
    by (simp add: list_all_iff list_ex_iff)
  show "computeSquaresAnalysis b odds p w1 w2 \<noteq> Inl (MalformedDigitAxis ax)"
    using assms(1-3) nex
    by (auto simp: computeSquaresAnalysis_def Let_def split: sum.splits dest: combinedRawOf_Inl)
  show "computeSquaresAnalysis b odds p w1 w2 \<noteq> Inl MalformedBoardShape"
    using assms(1-3) nex
    by (auto simp: computeSquaresAnalysis_def Let_def split: sum.splits dest: combinedRawOf_Inl)
qed


subsection \<open>A pasted grid is tokenized into its cells\<close>

lemma splitOn_no_sep: "d \<notin> set xs \<Longrightarrow> splitOn d xs = [xs]"
  by (induction xs) auto

lemma splitOn_append_sep: "d \<notin> set xs \<Longrightarrow> splitOn d (xs @ d # ys) = xs # splitOn d ys"
  by (induction xs) auto

lemma splitOn_nonempty: "splitOn d xs \<noteq> []"
  by (induction xs) (auto split: list.splits)

lemma splitOn_snoc_sep: "splitOn d (xs @ [d]) = splitOn d xs @ [[]]"
  by (induction xs) (auto simp: splitOn_nonempty split: list.splits)

lemma splitOn_joinCells:
  "row \<noteq> [] \<Longrightarrow> \<forall>c\<in>set row. 9 \<notin> set c \<Longrightarrow> splitOn 9 (joinCells row) = row"
proof (induction row rule: joinCells.induct)
  case 1
  then show ?case by simp
next
  case (2 c)
  then show ?case by (simp add: splitOn_no_sep)
next
  case (3 c d cs)
  then show ?case by (simp add: splitOn_append_sep)
qed

lemma set_joinCells: "set (joinCells row) \<subseteq> \<Union> (set ` set row) \<union> {9}"
  by (induction row rule: joinCells.induct) auto

lemma last_joinCells: "row \<noteq> [] \<Longrightarrow> last row \<noteq> [] \<Longrightarrow>
    joinCells row \<noteq> [] \<and> last (joinCells row) = last (last row)"
  by (induction row rule: joinCells.induct) auto

lemma tab_in_joinCells: "2 \<le> length row \<Longrightarrow> 9 \<in> set (joinCells row)"
  by (induction row rule: joinCells.induct) auto

lemma plainChar_simps:
  "plainChar c \<Longrightarrow> c \<noteq> 9 \<and> c \<noteq> 10 \<and> c \<noteq> 13 \<and> c \<noteq> 96 \<and> c \<noteq> 160 \<and> c \<noteq> 65292"
  by (simp add: plainChar_def)

lemma pastedRow_line:
  assumes "pastedRow row"
  shows "joinCells row \<noteq> []" "\<not> isWhiteSpace (last (joinCells row))"
    "last (joinCells row) = last (last row)"
    "\<forall>c\<in>set (joinCells row). c \<noteq> 10 \<and> c \<noteq> 13 \<and> c \<noteq> 96 \<and> c \<noteq> 160 \<and> c \<noteq> 65292"
    "splitOn 9 (joinCells row) = row"
proof -
  from assms have ne: "row \<noteq> []" and pl: "\<forall>cell\<in>set row. \<forall>c\<in>set cell. plainChar c"
    and ve: "last row \<noteq> []" "\<not> isWhiteSpace (last (last row))"
    by (auto simp: pastedRow_def plainCell_def visibleEnd_def list_all_iff)
  from last_joinCells [OF ne ve(1)] ve(2)
  show "joinCells row \<noteq> []" "\<not> isWhiteSpace (last (joinCells row))"
    "last (joinCells row) = last (last row)" by simp_all
  show "\<forall>c\<in>set (joinCells row). c \<noteq> 10 \<and> c \<noteq> 13 \<and> c \<noteq> 96 \<and> c \<noteq> 160 \<and> c \<noteq> 65292"
  proof
    fix c assume "c \<in> set (joinCells row)"
    with set_joinCells [of row] have "c = 9 \<or> (\<exists>cell\<in>set row. c \<in> set cell)" by auto
    with pl show "c \<noteq> 10 \<and> c \<noteq> 13 \<and> c \<noteq> 96 \<and> c \<noteq> 160 \<and> c \<noteq> 65292"
      by (auto dest: plainChar_simps)
  qed
  from pl have "\<forall>c\<in>set row. 9 \<notin> set c" by (auto dest: plainChar_simps)
  with ne show "splitOn 9 (joinCells row) = row" by (rule splitOn_joinCells)
qed

lemma splitOn_pasteText:
  "\<forall>row\<in>set rows. 10 \<notin> set (joinCells row) \<Longrightarrow>
     splitOn 10 (pasteText rows) = map joinCells rows @ [[]]"
proof (induction rows)
  case Nil
  then show ?case by (simp add: pasteText_def)
next
  case (Cons row rows)
  then have ih: "splitOn 10 (pasteText rows) = map joinCells rows @ [[]]" by simp
  from Cons.prems have n: "10 \<notin> set (joinCells row)" by simp
  have "pasteText (row # rows) = joinCells row @ 10 # pasteText rows"
    by (simp add: pasteText_def)
  with n ih show ?case by (simp add: splitOn_append_sep)
qed


lemma dropWhile_keep: "\<not> P c \<Longrightarrow> dropWhile P (xs @ c # ys) = dropWhile P xs @ c # ys"
  by (induction xs) auto

lemma trim_visible_end:
  assumes "s \<noteq> []" "\<not> isWhiteSpace (last s)" "\<forall>x\<in>set w. isWhiteSpace x"
  shows "trim (s @ w) = dropWhile isWhiteSpace (butlast s) @ [last s]"
proof -
  from assms(1) obtain b c where s: "s = b @ [c]" by (cases s rule: rev_cases) auto
  with assms(2) have c: "\<not> isWhiteSpace c" by simp
  have "dropWhile isWhiteSpace ((b @ [c]) @ w) = dropWhile isWhiteSpace b @ c # w"
    using dropWhile_keep [of isWhiteSpace c b w] c by simp
  then have "rev (dropWhile isWhiteSpace ((b @ [c]) @ w))
      = rev w @ c # rev (dropWhile isWhiteSpace b)" by simp
  moreover have "dropWhile isWhiteSpace (rev w @ c # rev (dropWhile isWhiteSpace b))
      = dropWhile isWhiteSpace (c # rev (dropWhile isWhiteSpace b))"
    by (rule dropWhile_append2) (use assms(3) in auto)
  moreover have "dropWhile isWhiteSpace (c # rev (dropWhile isWhiteSpace b))
      = c # rev (dropWhile isWhiteSpace b)"
    using c by simp
  ultimately show ?thesis by (simp add: trim_def s)
qed

lemma stripTrailingWhiteSpace_visible_end:
  assumes "s \<noteq> []" "\<not> isWhiteSpace (last s)"
  shows "stripTrailingWhiteSpace s = s"
proof -
  from assms(1) obtain b c where s: "s = b @ [c]" by (cases s rule: rev_cases) auto
  with assms(2) show ?thesis by (simp add: stripTrailingWhiteSpace_def)
qed

lemma stripTrailingBlankLines_final_newline:
  assumes "b \<noteq> []" "\<not> isWhiteSpace (last b)"
  shows "stripTrailingBlankLines (b @ [10]) = b"
proof -
  from assms(1) obtain u c where b: "b = u @ [c]" by (cases b rule: rev_cases) auto
  with assms(2) have c: "\<not> isWhiteSpace c" by simp
  have ws: "isWhiteSpace 10" by (simp add: isWhiteSpace_def)
  show ?thesis
    using c ws by (simp add: stripTrailingBlankLines_def Let_def b)
qed

lemma stripLeadingBlankLines_first_line:
  assumes "l \<noteq> []" "\<not> isWhiteSpace (last l)" "10 \<notin> set l"
  shows "stripLeadingBlankLines (l @ rest) = l @ rest"
proof -
  from assms(1) have "last l \<in> set l" by simp
  with assms(2) have "takeWhile isWhiteSpace (l @ rest) = takeWhile isWhiteSpace l"
    by (simp add: takeWhile_append1)
  moreover have "set (takeWhile isWhiteSpace l) \<subseteq> set l" by (auto dest: set_takeWhileD)
  ultimately have "10 \<notin> set (takeWhile isWhiteSpace (l @ rest))" using assms(3) by auto
  then show ?thesis by (simp add: stripLeadingBlankLines_def Let_def)
qed

lemma endsWith_last: "endsWith s p \<Longrightarrow> p \<noteq> [] \<Longrightarrow> s \<noteq> [] \<and> last s = last p"
proof -
  assume e: "endsWith s p" and p: "p \<noteq> []"
  then have "s = take (length s - length p) s @ p"
    by (metis append_take_drop_id endsWith_def)
  with p show ?thesis by (metis last_appendR append_is_Nil_conv)
qed

lemma unwrapWith_None:
  assumes "last t \<notin> set [96, 8221, 34, 39, 41]"
  shows "unwrapWith wrappers t = None"
proof -
  have "\<not> endsWith t stop" if "stop \<in> set [[96, 96, 96], [8221], [34], [39], [96], [41]]" for stop
  proof
    assume "endsWith t stop"
    with that endsWith_last [of t stop] have "last t = last stop" by auto
    with that assms show False by auto
  qed
  then show ?thesis by (simp add: wrappers_def)
qed

lemma removeFences_id: "96 \<notin> set s \<Longrightarrow> removeFences s = s"
  by (induction s rule: removeFences.induct) auto


lemma in_set_dropWhile: "x \<in> set xs \<Longrightarrow> \<not> P x \<Longrightarrow> x \<in> set (dropWhile P xs)"
  by (induction xs) auto

lemma collapseWhiteSpace_keeps:
  "x \<in> set s \<Longrightarrow> \<not> isWhiteSpace x \<Longrightarrow> x \<in> set (collapseWhiteSpace s)"
proof (induction s rule: collapseWhiteSpace.induct)
  case 1
  then show ?case by simp
next
  case (2 c cs)
  show ?case
  proof (cases "isWhiteSpace c")
    case True
    with "2.prems" have "x \<in> set cs" by auto
    with "2.prems"(2) have "x \<in> set (dropWhile isWhiteSpace cs)" by (simp add: in_set_dropWhile)
    with True "2.IH"(1) "2.prems"(2) show ?thesis by simp
  next
    case False
    with "2.IH"(2) "2.prems" show ?thesis by auto
  qed
qed

lemma trim_nonempty: "x \<in> set s \<Longrightarrow> \<not> isWhiteSpace x \<Longrightarrow> trim s \<noteq> []"
proof -
  assume a: "x \<in> set s" "\<not> isWhiteSpace x"
  then have "x \<in> set (rev (dropWhile isWhiteSpace s))" by (simp add: in_set_dropWhile)
  with a(2) have "x \<in> set (dropWhile isWhiteSpace (rev (dropWhile isWhiteSpace s)))"
    by (simp add: in_set_dropWhile)
  then have "dropWhile isWhiteSpace (rev (dropWhile isWhiteSpace s)) \<noteq> []"
    by (metis empty_iff list.set(1))
  then show ?thesis by (simp only: trim_def rev_is_Nil_conv not_False_eq_True)
qed

lemma normalizeCell_nonempty: "visibleEnd s \<Longrightarrow> normalizeCell s \<noteq> []"
proof -
  assume "visibleEnd s"
  then have "last s \<in> set s" "\<not> isWhiteSpace (last s)" by (simp_all add: visibleEnd_def)
  then show ?thesis
    unfolding normalizeCell_def by (intro trim_nonempty collapseWhiteSpace_keeps)
qed

lemma pastedRow_filled: "pastedRow row \<Longrightarrow> someCellFilled (map normalizeCell row)"
proof -
  assume p: "pastedRow row"
  then have "row \<noteq> []" "visibleEnd (last row)" by (simp_all add: pastedRow_def)
  then have "last row \<in> set row" "normalizeCell (last row) \<noteq> []"
    by (simp_all add: normalizeCell_nonempty)
  then show ?thesis by (auto simp: someCellFilled_def list_ex_iff)
qed

lemma pasteText_snoc: "pasteText (init @ [row]) = (pasteText init @ joinCells row) @ [10]"
  by (simp add: pasteText_def)

lemma pasteText_chars:
  assumes "list_all pastedRow rows" "c \<in> set (pasteText rows)"
  shows "c \<noteq> 13 \<and> c \<noteq> 96 \<and> c \<noteq> 160 \<and> c \<noteq> 65292"
proof (cases "c = 10")
  case True
  then show ?thesis by simp
next
  case False
  with assms(2) obtain row where r: "row \<in> set rows" "c \<in> set (joinCells row)"
    unfolding pasteText_def by (auto split: if_splits)
  with assms(1) have "pastedRow row" by (simp add: list_all_iff)
  from pastedRow_line(4) [OF this] r(2) show ?thesis by auto
qed

lemma cleanText_pasteText:
  assumes "pastedGrid (init @ [row])"
  shows "cleanText (pasteText (init @ [row])) = pasteText init @ joinCells row"
proof -
  let ?b = "pasteText init @ joinCells row"
  let ?t = "pasteText (init @ [row])"
  from assms have rows: "list_all pastedRow (init @ [row])" and rl: "pastedRow row"
    and lc: "last (last row) \<notin> set [8221, 34, 39, 41]"
    by (simp_all add: pastedGrid_def)
  note ln = pastedRow_line [OF rl]
  have t: "?t = ?b @ [10]" by (rule pasteText_snoc)
  from ln have bne: "?b \<noteq> []" and bl: "last ?b = last (last row)" "\<not> isWhiteSpace (last ?b)"
    by simp_all
  have chars: "c \<noteq> 13 \<and> c \<noteq> 96 \<and> c \<noteq> 160 \<and> c \<noteq> 65292" if "c \<in> set ?b" for c
    using pasteText_chars [OF rows, of c] that unfolding t by simp
  have lead: "stripLeadingBlankLines ?t = ?t"
  proof (cases init)
    case Nil
    then have e: "?t = joinCells row @ [10]" by (simp add: pasteText_def)
    from ln(4) have "10 \<notin> set (joinCells row)" by blast
    from stripLeadingBlankLines_first_line [OF ln(1,2) this, of "[10]"] e
    show ?thesis by simp
  next
    case (Cons r1 rest)
    with rows have "pastedRow r1" by simp
    note l1 = pastedRow_line [OF this]
    from Cons have e: "?t = joinCells r1 @ (10 # pasteText (rest @ [row]))"
      by (simp add: pasteText_def)
    from l1(4) have "10 \<notin> set (joinCells r1)" by blast
    from stripLeadingBlankLines_first_line [OF l1(1,2) this, of "10 # pasteText (rest @ [row])"] e
    show ?thesis by simp
  qed
  have trail: "stripTrailingBlankLines ?t = ?b"
    unfolding t using bne bl(2) by (rule stripTrailingBlankLines_final_newline)
  have ws10: "\<forall>x\<in>set [10::nat]. isWhiteSpace x" by (simp add: isWhiteSpace_def)
  have "trim ?t = dropWhile isWhiteSpace (butlast ?b) @ [last ?b]"
    unfolding t using bne bl(2) ws10 by (rule trim_visible_end)
  then have "last (trim ?t) = last (last row)" using bl(1) by simp
  moreover from bne have "last ?b \<in> set ?b" by (rule last_in_set)
  then have "last (last row) \<noteq> 96" using chars [of "last ?b"] bl(1) by simp
  ultimately have "last (trim ?t) \<notin> set [96, 8221, 34, 39, 41]" using lc by simp
  then have "unwrapWith wrappers (trim ?t) = None" by (rule unwrapWith_None)
  then have u: "unwrapTextBlock ?t = ?b" by (simp add: unwrapTextBlock_def lead trail)
  have m1: "map (\<lambda>c. if c = 160 then 32 else c) ?b = ?b"
    by (rule map_idI) (use chars in auto)
  have m2: "map (\<lambda>c. if c = 65292 then 44 else c) ?b = ?b"
    by (rule map_idI) (use chars in auto)
  have f: "filter (\<lambda>c. c \<noteq> 13) ?b = ?b"
    by (rule filter_True) (use chars in auto)
  have "96 \<notin> set ?b" using chars by blast
  then have r: "removeFences ?b = ?b" by (rule removeFences_id)
  show ?thesis unfolding cleanText_def u m1 m2 f r ..
qed


lemma linesOf_pasteText:
  assumes "list_all pastedRow (init @ [row])"
  shows "linesOf (pasteText init @ joinCells row) = map joinCells (init @ [row])"
proof -
  let ?rows = "init @ [row]"
  let ?b = "pasteText init @ joinCells row"
  have no10: "\<forall>r\<in>set ?rows. 10 \<notin> set (joinCells r)"
  proof
    fix r assume "r \<in> set ?rows"
    with assms have "pastedRow r" by (auto simp: list_all_iff)
    from pastedRow_line(4) [OF this] show "10 \<notin> set (joinCells r)" by blast
  qed
  have "splitOn 10 (?b @ [10]) = map joinCells ?rows @ [[]]"
    using splitOn_pasteText [OF no10] by (simp only: pasteText_snoc)
  then have sp: "splitOn 10 ?b = map joinCells ?rows"
    by (simp only: splitOn_snoc_sep append1_eq_conv)
  have keep: "stripTrailingWhiteSpace (joinCells r) = joinCells r
      \<and> length (trim (joinCells r)) > 0" if "r \<in> set ?rows" for r
  proof -
    from that assms have "pastedRow r" by (auto simp: list_all_iff)
    note l = pastedRow_line [OF this]
    from l(1) have "last (joinCells r) \<in> set (joinCells r)" by simp
    with l(2) have "trim (joinCells r) \<noteq> []" by (simp add: trim_nonempty)
    with l(1,2) show ?thesis by (simp add: stripTrailingWhiteSpace_visible_end)
  qed
  have m: "map stripTrailingWhiteSpace (map joinCells ?rows) = map joinCells ?rows"
    using keep by (simp del: map_append)
  have f: "filter (\<lambda>line. length (trim line) > 0) (map joinCells ?rows) = map joinCells ?rows"
    by (rule filter_True) (use keep in auto)
  show ?thesis unfolding linesOf_def sp m f ..
qed

lemma parseRows_tabs:
  "list_ex (\<lambda>line. includesChar line 9) (linesOf (cleanText t)) \<Longrightarrow>
     parseRows t = filter someCellFilled
       (map (\<lambda>line. map normalizeCell (splitOn 9 line)) (linesOf (cleanText t)))"
  by (simp add: parseRows_def Let_def)

lemma parseRows_pasteText:
  assumes "pastedGrid rows"
  shows "parseRows (pasteText rows) = map (map normalizeCell) rows"
proof -
  from assms have ne: "rows \<noteq> []" and all: "list_all pastedRow rows"
    and wide: "list_ex (\<lambda>row. 2 \<le> length row) rows"
    by (simp_all add: pastedGrid_def)
  from ne obtain init row where rows: "rows = init @ [row]" by (cases rows rule: rev_cases) auto
  from assms all have ct: "cleanText (pasteText rows) = pasteText init @ joinCells row"
    and ls: "linesOf (pasteText init @ joinCells row) = map joinCells rows"
    unfolding rows by (simp_all only: cleanText_pasteText linesOf_pasteText)
  from wide obtain w where w: "w \<in> set rows" "2 \<le> length w" by (auto simp: list_ex_iff)
  then have "9 \<in> set (joinCells w)" by (simp add: tab_in_joinCells)
  with w(1) have tab: "list_ex (\<lambda>line. includesChar line 9) (map joinCells rows)"
    by (auto simp: list_ex_iff includesChar_def)
  have cells: "map (\<lambda>line. map normalizeCell (splitOn 9 line)) (map joinCells rows)
      = map (map normalizeCell) rows"
  proof -
    have "map normalizeCell (splitOn 9 (joinCells r)) = map normalizeCell r" if "r \<in> set rows" for r
    proof -
      from that all have "pastedRow r" by (simp add: list_all_iff)
      from pastedRow_line(5) [OF this] show ?thesis by simp
    qed
    then show ?thesis by simp
  qed
  have filled: "filter someCellFilled (map (map normalizeCell) rows) = map (map normalizeCell) rows"
  proof (rule filter_True, rule ballI)
    fix r assume "r \<in> set (map (map normalizeCell) rows)"
    then obtain r0 where "r0 \<in> set rows" "r = map normalizeCell r0" by auto
    with all show "someCellFilled r" by (simp add: list_all_iff pastedRow_filled)
  qed
  from tab have "list_ex (\<lambda>line. includesChar line 9) (linesOf (cleanText (pasteText rows)))"
    by (simp only: ct ls)
  from parseRows_tabs [OF this] show ?thesis by (simp only: ct ls cells filled)
qed


subsection \<open>Normalizing a cell twice changes nothing\<close>

lemma isWhiteSpace_32: "isWhiteSpace 32"
  by (simp add: isWhiteSpace_def)

lemma tidy_Cons:
  "tidy (a # xs) \<longleftrightarrow>
     (\<not> isWhiteSpace a \<or> (a = 32 \<and> (xs = [] \<or> \<not> isWhiteSpace (hd xs)))) \<and> tidy xs"
  by (cases xs) auto

lemma hd_dropWhile_not: "dropWhile P xs \<noteq> [] \<Longrightarrow> \<not> P (hd (dropWhile P xs))"
  by (induction xs) auto

lemma hd_collapse:
  "s \<noteq> [] \<Longrightarrow> \<not> isWhiteSpace (hd s) \<Longrightarrow>
     collapseWhiteSpace s \<noteq> [] \<and> hd (collapseWhiteSpace s) = hd s"
  by (cases s) auto

lemma tidy_collapse: "tidy (collapseWhiteSpace s)"
proof (induction s rule: collapseWhiteSpace.induct)
  case 1
  then show ?case by simp
next
  case (2 c cs)
  show ?case
  proof (cases "isWhiteSpace c")
    case True
    let ?d = "dropWhile isWhiteSpace cs"
    from True "2.IH"(1) have ih: "tidy (collapseWhiteSpace ?d)" by simp
    have "collapseWhiteSpace ?d = [] \<or> \<not> isWhiteSpace (hd (collapseWhiteSpace ?d))"
    proof (cases "?d = []")
      case True
      show ?thesis unfolding True by simp
    next
      case False
      then have "\<not> isWhiteSpace (hd ?d)" by (rule hd_dropWhile_not)
      with False hd_collapse [of ?d] show ?thesis by simp
    qed
    with True ih show ?thesis by (simp add: tidy_Cons)
  next
    case False
    with "2.IH"(2) show ?thesis by (simp add: tidy_Cons)
  qed
qed

lemma collapse_tidy: "tidy x \<Longrightarrow> collapseWhiteSpace x = x"
proof (induction x rule: tidy.induct)
  case (1 a b cs)
  then show ?case by (auto simp: isWhiteSpace_32)
next
  case (2 a)
  then show ?case by (auto simp: isWhiteSpace_32)
next
  case 3
  then show ?case by simp
qed

lemma tidy_dropWhile: "tidy x \<Longrightarrow> tidy (dropWhile P x)"
  by (induction x) (auto simp: tidy_Cons)

lemma tidy_snoc:
  "tidy (xs @ [a]) \<longleftrightarrow>
     tidy xs \<and> (\<not> isWhiteSpace a \<or> (a = 32 \<and> (xs = [] \<or> \<not> isWhiteSpace (last xs))))"
proof (induction xs rule: tidy.induct)
  case (1 a' b cs)
  then show ?case by (auto simp: isWhiteSpace_32)
next
  case (2 a')
  then show ?case by (auto simp: isWhiteSpace_32)
next
  case 3
  then show ?case by simp
qed

lemma tidy_rev: "tidy x \<Longrightarrow> tidy (rev x)"
proof (induction x)
  case Nil
  then show ?case by simp
next
  case (Cons a xs)
  then have t: "tidy xs" and a: "\<not> isWhiteSpace a \<or> (a = 32 \<and> (xs = [] \<or> \<not> isWhiteSpace (hd xs)))"
    by (simp_all add: tidy_Cons)
  from a have "\<not> isWhiteSpace a \<or> (a = 32 \<and> (rev xs = [] \<or> \<not> isWhiteSpace (last (rev xs))))"
    by (cases xs) auto
  with Cons.IH [OF t] show ?case by (simp add: tidy_snoc)
qed

lemma tidy_trim: "tidy x \<Longrightarrow> tidy (trim x)"
  unfolding trim_def by (intro tidy_rev tidy_dropWhile)

lemma dropWhile_id: "xs = [] \<or> \<not> P (hd xs) \<Longrightarrow> dropWhile P xs = xs"
  by (cases xs) auto

lemma trim_trim: "trim (trim x) = trim x"
proof -
  define d where "d = dropWhile isWhiteSpace (rev (dropWhile isWhiteSpace x))"
  have t: "trim x = rev d" by (simp add: trim_def d_def)
  have hd_d: "d = [] \<or> \<not> isWhiteSpace (hd d)"
    unfolding d_def using hd_dropWhile_not [of isWhiteSpace] by blast
  have last_d: "d = [] \<or> \<not> isWhiteSpace (last d)"
  proof (cases "d = []")
    case True
    then show ?thesis by simp
  next
    case False
    define e where "e = dropWhile isWhiteSpace x"
    from False have "rev e \<noteq> []" by (metis d_def e_def dropWhile.simps(1))
    then have ne: "e \<noteq> []" by simp
    then have "\<not> isWhiteSpace (hd e)" unfolding e_def by (rule hd_dropWhile_not)
    moreover have "last d = last (rev e)"
      using False unfolding d_def e_def
      by (metis append_take_drop_id last_appendR takeWhile_dropWhile_id)
    ultimately show ?thesis using ne by (simp add: last_rev)
  qed
  from last_d have 1: "dropWhile isWhiteSpace (rev d) = rev d"
    by (intro dropWhile_id) (auto simp: hd_rev)
  from hd_d have 2: "dropWhile isWhiteSpace d = d" by (rule dropWhile_id)
  show ?thesis by (simp add: t trim_def [of "rev d"] 1 2)
qed

lemma normalizeCell_idem: "normalizeCell (normalizeCell s) = normalizeCell s"
proof -
  have "tidy (trim (collapseWhiteSpace s))" by (intro tidy_trim tidy_collapse)
  then have "collapseWhiteSpace (trim (collapseWhiteSpace s)) = trim (collapseWhiteSpace s)"
    by (rule collapse_tidy)
  then show ?thesis by (simp add: normalizeCell_def trim_trim)
qed

lemma normalizeOwnerName_normalizeCell:
  "normalizeOwnerName (normalizeCell s) = normalizeOwnerName s"
  by (simp add: normalizeOwnerName_def normalizeCell_idem)


subsection \<open>The board of a pasted grid\<close>

lemmas ev = str_def isWhiteSpace_def trim_def includesChar_def startsWith_def endsWith_def slice_def
  stripLeadingBlankLines_def stripTrailingBlankLines_def stripTrailingWhiteSpace_def normalizeCell_def
  wrappers_def unwrapTextBlock_def cleanText_def linesOf_def someCellFilled_def Let_def


lemmas ev2 = str_def isWhiteSpace_def trim_def startsWith_def endsWith_def slice_def normalizeCell_def Let_def
  maybeDigit_def stringToNumber_def strUnsignedDecimalLiteral_def exponentPart_def isDecimalDigit_def
  digitValue_def radixOfPrefix_def powerOfTen_def nearestDigit_def digitLower_def digitUpper_def
  extractDigitsFromRow_def extractDigitsLoop.simps isValidDigitArray_def defaultDigits_def DIGITS_def
  normalizeOwnerName_def lettersOnlyOf_def lowerLetter_def stevenVariants_def editDistance_def
  cellAt_def cellOf_def teamLabel_def List.map_filter_def

lemma digit_cases: "0 \<le> d \<Longrightarrow> d \<le> 9 \<Longrightarrow>
    d = 0 \<or> d = 1 \<or> d = 2 \<or> d = 3 \<or> d = 4 \<or> d = 5 \<or> d = 6 \<or> d = 7 \<or> d = 8 \<or> d = (9::int)"
  by arith

lemma maybeDigit_digitCell:
  assumes "0 \<le> d" "d \<le> 9"
  shows "maybeDigit (normalizeCell (digitCell d)) = Some d"
  using digit_cases [OF assms] by (elim disjE) (simp_all add: digitCell_def ev2)

lemma digitCell_plain:
  assumes "0 \<le> d" "d \<le> 9"
  shows "plainCell (digitCell d) \<and> visibleEnd (digitCell d)"
  using digit_cases [OF assms]
  by (elim disjE) (simp_all add: digitCell_def plainCell_def plainChar_def visibleEnd_def isWhiteSpace_def)

lemma those_map_Some: "those (map Some xs) = Some xs"
  by (induction xs) auto

lemma extractDigitsFromRow_header:
  assumes "isValidDigitArray ds"
  shows "extractDigitsFromRow (map normalizeCell (map digitCell ds)) = Some (0, ds)"
proof -
  define cells where "cells = map normalizeCell (map digitCell ds)"
  from assms have len: "length ds = 10" and rng: "\<forall>d\<in>set ds. 0 \<le> d \<and> d \<le> 9"
    by (auto simp: isValidDigitArray_def list_all_iff split: if_splits)
  have m: "map maybeDigit cells = map Some ds"
    unfolding cells_def using rng by (simp add: maybeDigit_digitCell)
  have lc: "length cells = 10" by (simp add: cells_def len)
  then have sl: "slice cells 0 (0 + 10) = cells" by (simp add: slice_def)
  have t: "those (map maybeDigit (slice cells 0 (0 + 10))) = Some ds"
    by (simp only: sl m those_map_Some)
  have "extractDigitsLoop cells 0 = Some (0, ds)"
    by (subst extractDigitsLoop.simps) (simp only: t, simp add: lc assms)
  then show ?thesis by (simp only: extractDigitsFromRow_def cells_def)
qed

lemma findHeader_skip:
  assumes "\<forall>a\<in>set A. extractDigitsFromRow a = None" "extractDigitsFromRow r = Some (c, ds)"
  shows "findHeader (A @ r # B) i = Some (i + length A, c, ds)"
  using assms by (induction A arbitrary: i) auto

lemma fillAwayDigits_None:
  "fillAwayDigits i (map (\<lambda>_. None) G) = map int [i..<i + length G]"
proof (induction G arbitrary: i)
  case Nil
  then show ?case by simp
next
  case (Cons g G)
  have "[i..<i + length (g # G)] = i # [Suc i..<Suc i + length G]"
    by (simp add: upt_rec)
  with Cons.IH [of "Suc i"] show ?case by simp
qed

lemma collectOwners_grid:
  assumes "\<forall>g\<in>set G. length g = 10 \<and> someCellFilled g" "length acc + length G = 10" "G \<noteq> []"
  shows "collectOwners 0 (G @ rest) acc away
           = (acc @ map (map normalizeOwnerName) G, away @ map (\<lambda>_. None) G)"
  using assms
proof (induction G arbitrary: acc away)
  case Nil
  then show ?case by simp
next
  case (Cons g G)
  from Cons.prems(1) have g: "length g = 10" "someCellFilled g" by simp_all
  from g(1) have sl: "slice g 0 (0 + 10) = g" by (simp add: slice_def)
  from g(2) have nb: "\<not> list_all (\<lambda>cell. length cell = 0) g"
    by (auto simp: someCellFilled_def list_all_iff list_ex_iff)
  show ?case
  proof (cases "G = []")
    case True
    with Cons.prems(2) have "length (acc @ [map normalizeOwnerName g]) = 10" by simp
    with True g(1) nb sl show ?thesis by (simp add: Let_def)
  next
    case False
    with Cons.prems(2) have "length (acc @ [map normalizeOwnerName g]) \<noteq> 10" by (cases G) auto
    moreover have "collectOwners 0 (G @ rest) (acc @ [map normalizeOwnerName g]) (away @ [None])
        = ((acc @ [map normalizeOwnerName g]) @ map (map normalizeOwnerName) G,
           (away @ [None]) @ map (\<lambda>_. None) G)"
      using Cons.prems False by (intro Cons.IH) auto
    ultimately show ?thesis using g(1) nb sl by (simp add: Let_def)
  qed
qed


lemma parse_with_header:
  assumes "parseRows t = N" "\<not> length N < 10" "findHeader N 0 = Some (i, 0, ds)"
    "collectOwners 0 (drop (i + 1) N) [] [] = (os, as)" "length os = 10"
  shows "parseSquaresFromPastedText t =
     Inr \<lparr> homeTeam = (if i > 0 then teamLabel (str ''Home Team'') (cellOf N (i - 1) 0)
                        else str ''Home Team''),
           awayTeam = str ''Away Team'', homeDigits = ds,
           awayDigits = (if isValidDigitArray (fillAwayDigits 0 as) then fillAwayDigits 0 as
                         else defaultDigits),
           owners = os \<rparr>"
  using assms by (simp add: parseSquaresFromPastedText_def Let_def)

lemma parse_pasteText:
  assumes grid: "pastedGrid (labels @ map digitCell ds # cells)"
    and ds: "isValidDigitArray ds"
    and lab: "\<forall>row\<in>set labels. extractDigitsFromRow (map normalizeCell row) = None"
    and c10: "length cells = 10" "\<forall>row\<in>set cells. length row = 10"
  shows "parseSquaresFromPastedText (pasteText (labels @ map digitCell ds # cells)) =
     Inr \<lparr> homeTeam =
             (if labels = [] then str ''Home Team''
              else teamLabel (str ''Home Team'') (cellAt (map normalizeCell (last labels)) 0)),
           awayTeam = str ''Away Team'', homeDigits = ds, awayDigits = DIGITS,
           owners = map (map normalizeOwnerName) cells \<rparr>"
proof -
  define NL where "NL = map (map normalizeCell) labels"
  define NH where "NH = map normalizeCell (map digitCell ds)"
  define NC where "NC = map (map normalizeCell) cells"
  define N where "N = NL @ NH # NC"
  have rows: "parseRows (pasteText (labels @ map digitCell ds # cells)) = N"
    using parseRows_pasteText [OF grid] by (simp add: N_def NL_def NH_def NC_def)
  have lenN: "\<not> length N < 10" using c10(1) by (simp add: N_def NC_def)
  have "\<forall>a\<in>set NL. extractDigitsFromRow a = None" using lab by (simp add: NL_def)
  moreover have "extractDigitsFromRow NH = Some (0, ds)"
    unfolding NH_def using ds by (rule extractDigitsFromRow_header)
  ultimately have fh: "findHeader N 0 = Some (length labels, 0, ds)"
    using findHeader_skip [of NL NH 0 ds NC 0] by (simp add: N_def NL_def)
  have dr: "drop (length labels + 1) N = NC" by (simp add: N_def NL_def)
  have filled: "\<forall>g\<in>set NC. length g = 10 \<and> someCellFilled g"
  proof
    fix g assume "g \<in> set NC"
    then obtain row where r: "row \<in> set cells" "g = map normalizeCell row" by (auto simp: NC_def)
    with grid have "pastedRow row" by (auto simp: pastedGrid_def list_all_iff)
    with r c10(2) show "length g = 10 \<and> someCellFilled g" by (simp add: pastedRow_filled)
  qed
  have "NC \<noteq> []" using c10(1) by (auto simp: NC_def)
  with filled c10(1) have co: "collectOwners 0 (NC @ []) [] []
      = ([] @ map (map normalizeOwnerName) NC, [] @ map (\<lambda>_. None) NC)"
    by (intro collectOwners_grid) (simp_all add: NC_def)
  have lnc: "length NC = 10" using c10(1) by (simp add: NC_def)
  have fa: "fillAwayDigits 0 (map (\<lambda>_. None) NC) = DIGITS"
  proof -
    have u: "[0..<10] = [0, 1, 2, 3, 4, 5, 6, 7, 8, 9::nat]" by code_simp
    from fillAwayDigits_None [of 0 NC] lnc show ?thesis by (simp add: DIGITS_def u)
  qed
  have va: "isValidDigitArray DIGITS" by (simp add: isValidDigitArray_def DIGITS_def)
  have ht: "cellOf N (length labels - 1) 0 = cellAt (map normalizeCell (last labels)) 0"
    if "labels \<noteq> []"
  proof -
    from that have "N ! (length labels - 1) = map normalizeCell (last labels)"
      by (simp add: N_def NL_def nth_append last_conv_nth last_map [symmetric] del: last_map)
    moreover have "length labels - 1 < length N" by (simp add: N_def NL_def)
    ultimately show ?thesis by (simp add: cellOf_def)
  qed
  have own: "map (map normalizeOwnerName) NC = map (map normalizeOwnerName) cells"
    by (simp add: NC_def comp_def normalizeOwnerName_normalizeCell)
  from co have co': "collectOwners 0 NC [] [] = (map (map normalizeOwnerName) NC, map (\<lambda>_. None) NC)"
    by simp
  have lo: "length (map (map normalizeOwnerName) NC) = 10" using lnc by simp
  from co' have co2: "collectOwners 0 (drop (length labels + 1) N) [] []
      = (map (map normalizeOwnerName) NC, map (\<lambda>_. None) NC)"
    by (simp only: dr)
  note p = parse_with_header [OF rows lenN fh co2 lo]
  show ?thesis
  proof (cases "labels = []")
    case True
    with p show ?thesis by (simp add: fa va own)
  next
    case False
    with p ht show ?thesis by (simp add: fa va own)
  qed
qed


subsection \<open>The example grid\<close>

lemma ownerRow_pasted: "pastedRow ownerRow" "length ownerRow = 10"
  by (simp_all add: ownerRow_def pastedRow_def plainCell_def plainChar_def visibleEnd_def
      isWhiteSpace_def str_def)

lemma scenarioGrid_pasted: "pastedGrid scenarioGrid"
  by (simp add: scenarioGrid_def scenarioLabels_def scenarioDigits_def scenarioCells_def
      pastedGrid_def ownerRow_pasted digitCell_def)
     (simp add: pastedRow_def plainCell_def plainChar_def visibleEnd_def isWhiteSpace_def str_def
      ownerRow_def)

lemma scenarioLabels_no_header:
  "\<forall>row\<in>set scenarioLabels. extractDigitsFromRow (map normalizeCell row) = None"
  by (simp add: scenarioLabels_def ev2)

lemma ownerRow_names: "map normalizeOwnerName ownerRow = ownerRow"
  by (simp add: ownerRow_def ev2)

lemma scenario_parse: "parseSquaresFromPastedText (pasteText scenarioGrid) = Inr scenarioBoard"
proof -
  have v: "isValidDigitArray scenarioDigits"
    by (simp add: scenarioDigits_def isValidDigitArray_def)
  have c: "length scenarioCells = 10" "\<forall>row\<in>set scenarioCells. length row = 10"
    by (simp_all add: scenarioCells_def ownerRow_pasted)
  have l: "teamLabel (str ''Home Team'') (cellAt (map normalizeCell (last scenarioLabels)) 0) = str ''A''"
    by (simp add: scenarioLabels_def ev2)
  have o: "map (map normalizeOwnerName) scenarioCells = owners scenarioBoard"
    by (simp add: scenarioCells_def scenarioBoard_def ownerRow_names) (simp add: ev2)
  have ne: "scenarioLabels \<noteq> []" by (simp add: scenarioLabels_def)
  from parse_pasteText [OF scenarioGrid_pasted [unfolded scenarioGrid_def] v scenarioLabels_no_header c]
  show ?thesis
    unfolding scenarioGrid_def o l
    by (simp add: ne scenarioBoard_def scenarioDigits_def DIGITS_def)
qed


lemma short_rows: "parseRows (str ''a'' @ [9] @ str ''b'') = [[str ''a'', str ''b'']]"
  by (simp add: parseRows_def ev)

section \<open>The parser: results\<close>

text \<open>
  Claim C8. Extraction fails with \<open>UnderfilledPastedInput\<close> whenever the tokenized input
  has fewer than ten non-blank rows; the test comes first, so it does not depend on
  whether a header row exists.
\<close>

theorem underfilled_input:
  assumes "length (filter someCellFilled (parseRows t)) < 10"
  shows "parseSquaresFromPastedText t = Inl UnderfilledPastedInput"
  using assms by (simp add: parseRows_nonblank parseSquaresFromPastedText_def Let_def)


theorem underfilled_input_witness:
  "length (filter someCellFilled (parseRows (str ''a'' @ [9] @ str ''b''))) < 10
   \<and> parseSquaresFromPastedText (str ''a'' @ [9] @ str ''b'') = Inl UnderfilledPastedInput"
proof -
  have h: "length (filter someCellFilled (parseRows (str ''a'' @ [9] @ str ''b''))) < 10"
    by (simp only: short_rows) (simp add: someCellFilled_def str_def)
  from h underfilled_input [OF h] show ?thesis by simp
qed

text \<open>
  Claim C6. Every board that the extraction returns has home and away digits in which
  each digit from 0 to 9 occurs exactly once: the away digits are the collected ones
  when those are valid and the natural order otherwise; a window that
  \<^verbatim>\<open>extractDigitsFromRow\<close> accepts consists of ten digit cells without a repetition; and
  the only failures of the extraction are the two about missing rows, so the
  replacement of the away digits raises nothing.
\<close>

theorem extracted_axes_are_permutations:
  "(\<forall>t b. parseSquaresFromPastedText t = Inr b \<longrightarrow>
       (length (homeDigits b) = 10 \<and> distinct (homeDigits b) \<and> set (homeDigits b) = {0..9})
     \<and> (length (awayDigits b) = 10 \<and> distinct (awayDigits b) \<and> set (awayDigits b) = {0..9})
     \<and> awayDigits b = (if isValidDigitArray (collectedAwayDigits t)
                        then collectedAwayDigits t else defaultDigits))
   \<and> (\<forall>cells start digits. extractDigitsFromRow cells = Some (start, digits) \<longrightarrow>
         those (map maybeDigit (slice cells start (start + 10))) = Some digits
         \<and> distinct digits \<and> set digits = {0..9})
   \<and> (\<forall>t e. parseSquaresFromPastedText t = Inl e \<longrightarrow>
         e = UnderfilledPastedInput \<or> e = IncompleteOwnershipGrid)"
proof -
  have boards: "(length (homeDigits b) = 10 \<and> distinct (homeDigits b) \<and> set (homeDigits b) = {0..9})
     \<and> (length (awayDigits b) = 10 \<and> distinct (awayDigits b) \<and> set (awayDigits b) = {0..9})
     \<and> awayDigits b = (if isValidDigitArray (collectedAwayDigits t)
                        then collectedAwayDigits t else defaultDigits)"
    if p: "parseSquaresFromPastedText t = Inr b" for t b
    using parse_axes_valid [OF p] parse_Inr_fields(2) [OF p]
    by (simp add: isValidDigitArray_iff)
  have windows: "those (map maybeDigit (slice cells start (start + 10))) = Some digits
         \<and> distinct digits \<and> set digits = {0..9}"
    if e: "extractDigitsFromRow cells = Some (start, digits)" for cells start digits
    using extractDigitsLoop_Some [of cells 0 start digits] e
    by (simp add: extractDigitsFromRow_def isValidDigitArray_iff)
  have errors: "e = UnderfilledPastedInput \<or> e = IncompleteOwnershipGrid"
    if "parseSquaresFromPastedText t = Inl e" for t e
    using that by (subst (asm) parse_unfold) (auto split: if_splits)
  from boards windows errors show ?thesis by blast
qed


theorem extracted_axes_are_permutations_witness:
  "parseSquaresFromPastedText (pasteText scenarioGrid) = Inr scenarioBoard
   \<and> distinct (homeDigits scenarioBoard) \<and> set (homeDigits scenarioBoard) = {0..9}
   \<and> distinct (awayDigits scenarioBoard) \<and> set (awayDigits scenarioBoard) = {0..9}
   \<and> extractDigitsFromRow (map normalizeCell (map digitCell scenarioDigits))
        = Some (0, scenarioDigits)
   \<and> distinct scenarioDigits
   \<and> parseSquaresFromPastedText (str ''a'' @ [9] @ str ''b'') = Inl UnderfilledPastedInput"
proof -
  note h1 = scenario_parse
  have h2: "extractDigitsFromRow (map normalizeCell (map digitCell scenarioDigits))
      = Some (0, scenarioDigits)"
    by (rule extractDigitsFromRow_header) (simp add: scenarioDigits_def isValidDigitArray_def)
  have h3: "parseSquaresFromPastedText (str ''a'' @ [9] @ str ''b'') = Inl UnderfilledPastedInput"
    by (simp only: parseSquaresFromPastedText_def short_rows Let_def) simp
  from extracted_axes_are_permutations h1
  have c1: "distinct (homeDigits scenarioBoard) \<and> set (homeDigits scenarioBoard) = {0..9}
      \<and> distinct (awayDigits scenarioBoard) \<and> set (awayDigits scenarioBoard) = {0..9}"
    by blast
  from extracted_axes_are_permutations h2
  have c2: "distinct scenarioDigits" by blast
  from h1 h2 h3 c1 c2 show ?thesis by blast
qed

text \<open>
  Claim C10. A board that the extraction returns has exactly ten owner rows of exactly
  ten cells, so the analysis of such a board never fails with \<open>MalformedDigitAxis\<close> or
  \<open>MalformedBoardShape\<close>, whatever the odds, the price and the weights.
\<close>

theorem extracted_board_is_well_shaped:
  assumes "parseSquaresFromPastedText t = Inr b"
  shows "length (owners b) = 10 \<and> list_all (\<lambda>row. length row = 10) (owners b)
       \<and> computeSquaresAnalysis b odds squarePrice finalResultWeight anyQuarterWeight
            \<noteq> Inl (MalformedDigitAxis Home)
       \<and> computeSquaresAnalysis b odds squarePrice finalResultWeight anyQuarterWeight
            \<noteq> Inl (MalformedDigitAxis Away)
       \<and> computeSquaresAnalysis b odds squarePrice finalResultWeight anyQuarterWeight
            \<noteq> Inl MalformedBoardShape"
proof -
  from parse_Inr_fields(3,4) [OF assms] have len: "length (owners b) = 10" by simp
  from parse_Inr_fields(3) [OF assms] collectedOwners_shape [of t]
  have shape: "list_all (\<lambda>row. length row = 10) (owners b)" by simp
  then have nex: "\<not> list_ex (\<lambda>row. length row \<noteq> 10) (owners b)"
    by (simp add: list_all_iff list_ex_iff)
  note v = parse_axes_valid [OF assms]
  from len shape computeSquaresAnalysis_valid_board [OF v len shape] show ?thesis by simp
qed


theorem extracted_board_is_well_shaped_witness:
  "parseSquaresFromPastedText (pasteText scenarioGrid) = Inr scenarioBoard
   \<and> length (owners scenarioBoard) = 10
   \<and> list_all (\<lambda>row. length row = 10) (owners scenarioBoard)
   \<and> computeSquaresAnalysis scenarioBoard \<lparr> anyQuarterOdds = [], finalResultOdds = [] \<rparr> 3 (4 / 5) (1 / 5)
        \<noteq> Inl MalformedBoardShape"
  using extracted_board_is_well_shaped [OF scenario_parse,
      of "\<lparr> anyQuarterOdds = [], finalResultOdds = [] \<rparr>" 3 "4 / 5" "1 / 5"] scenario_parse
  by simp

section \<open>The parser: a pasted grid and its board\<close>

lemma normalizeOwnerName_cases:
  "normalizeOwnerName cell = normalizeCell cell \<or> normalizeOwnerName cell = str ''Steven''"
  by (simp add: normalizeOwnerName_def Let_def)

text \<open>
  Claim C2, as stated, fails: in the example grid the first owner cell is pasted as
  \<open>Steve\<close>, which white-space collapsing leaves as it is, and the board holds \<open>Steven\<close>.
\<close>

theorem pasted_grid_roundtrip_counterexample:
  "parseSquaresFromPastedText (pasteText scenarioGrid) = Inr scenarioBoard
   \<and> scenarioCells ! 0 ! 0 = str ''Steve''
   \<and> normalizeCell (scenarioCells ! 0 ! 0) = str ''Steve''
   \<and> owners scenarioBoard ! 0 ! 0 = str ''Steven''"
proof -
  have "scenarioCells ! 0 ! 0 = str ''Steve''" by (simp add: scenarioCells_def)
  moreover have "normalizeCell (str ''Steve'') = str ''Steve''" by (simp add: ev2)
  moreover have "owners scenarioBoard ! 0 ! 0 = str ''Steven''" by (simp add: scenarioBoard_def)
  ultimately show ?thesis using scenario_parse by simp
qed

text \<open>
  Claim C2, amended. Take a well-formed pasted grid: label rows without a digit window,
  then the header row of ten digit cells in which every digit occurs once, then ten
  rows of ten cells. The extraction returns a board whose home digits are the digits of
  the header row in their order and whose ownership grid is the ten rows after the
  header row, every cell passed through the name normalizer: the pasted text with its
  white space collapsed and trimmed, or the canonical name when the cell matches the name
  rule.
\<close>

theorem pasted_grid_roundtrip:
  assumes "pastedGrid (labels @ map digitCell ds # cells)"
    and "isValidDigitArray ds"
    and "\<forall>row\<in>set labels. extractDigitsFromRow (map normalizeCell row) = None"
    and "length cells = 10" and "\<forall>row\<in>set cells. length row = 10"
  shows "\<exists>b. parseSquaresFromPastedText (pasteText (labels @ map digitCell ds # cells)) = Inr b
           \<and> homeDigits b = ds
           \<and> owners b = map (map normalizeOwnerName) cells
           \<and> (\<forall>cell. normalizeOwnerName cell = normalizeCell cell
                      \<or> normalizeOwnerName cell = str ''Steven'')"
  using parse_pasteText [OF assms] normalizeOwnerName_cases by simp

theorem pasted_grid_roundtrip_witness:
  "pastedGrid (scenarioLabels @ map digitCell scenarioDigits # scenarioCells)
   \<and> isValidDigitArray scenarioDigits
   \<and> list_all (\<lambda>row. extractDigitsFromRow (map normalizeCell row) = None) scenarioLabels
   \<and> length scenarioCells = 10 \<and> list_all (\<lambda>row. length row = 10) scenarioCells
   \<and> map_sum id homeDigits
         (parseSquaresFromPastedText
            (pasteText (scenarioLabels @ map digitCell scenarioDigits # scenarioCells)))
       = Inr scenarioDigits
   \<and> map_sum id owners
         (parseSquaresFromPastedText
            (pasteText (scenarioLabels @ map digitCell scenarioDigits # scenarioCells)))
       = Inr (map (map normalizeOwnerName) scenarioCells)"
proof -
  have g: "pastedGrid (scenarioLabels @ map digitCell scenarioDigits # scenarioCells)"
    using scenarioGrid_pasted by (simp only: scenarioGrid_def)
  have v: "isValidDigitArray scenarioDigits"
    by (simp add: scenarioDigits_def isValidDigitArray_def)
  have c: "length scenarioCells = 10" "\<forall>row\<in>set scenarioCells. length row = 10"
    by (simp_all add: scenarioCells_def ownerRow_pasted)
  from pasted_grid_roundtrip [OF g v scenarioLabels_no_header c]
  obtain b where b: "parseSquaresFromPastedText
        (pasteText (scenarioLabels @ map digitCell scenarioDigits # scenarioCells)) = Inr b"
      "homeDigits b = scenarioDigits"
      "owners b = map (map normalizeOwnerName) scenarioCells"
    by blast
  from g v scenarioLabels_no_header c b show ?thesis by (simp add: list_all_iff)
qed

section \<open>The analysis: input validation\<close>

lemma traverse_find:
  "traverse f xs = (case find (\<lambda>x. isl (f x)) xs of
                      Some x \<Rightarrow> Inl (projl (f x))
                    | None \<Rightarrow> Inr (map (\<lambda>x. projr (f x)) xs))"
  by (induction xs) (auto split: sum.splits option.splits)

lemma find_product:
  "find (\<lambda>p. P (fst p) (snd p)) (List.product xs ys) =
     (case find (\<lambda>a. find (P a) ys \<noteq> None) xs of
        None \<Rightarrow> None
      | Some a \<Rightarrow> map_option (Pair a) (find (P a) ys))"
proof (induction xs)
  case Nil
  then show ?case by simp
next
  case (Cons x xs)
  have m: "find (\<lambda>p. P (fst p) (snd p)) (map (Pair x) ys @ zs) =
        (case find (P x) ys of Some h \<Rightarrow> Some (x, h)
         | None \<Rightarrow> find (\<lambda>p. P (fst p) (snd p)) zs)" for zs
    by (induction ys) auto
  show ?case using Cons.IH by (simp add: m split: option.splits)
qed

lemma combineCell_isl:
  "isl (combineCell odds w1 w2 a h) \<longleftrightarrow> missingAt odds (a, h) \<or> zeroAt odds (a, h)"
  by (auto simp: combineCell_def missingAt_def zeroAt_def americanToRawProbability_def Let_def
           split: option.splits)

lemma combineCell_missing:
  "missingAt odds (a, h) \<Longrightarrow> combineCell odds w1 w2 a h = Inl (IncompleteOddsCoverage a h)"
  by (auto simp: combineCell_def missingAt_def split: option.splits)

lemma combinedRawOf_first:
  assumes "firstUnusablePair odds = Some (a, h)"
  shows "combinedRawOf odds w1 w2 = Inl (projl (combineCell odds w1 w2 a h))"
proof -
  define P where "P = (\<lambda>a h. isl (combineCell odds w1 w2 a h))"
  define Q where "Q = (\<lambda>x. find (P x) DIGITS \<noteq> None)"
  from assms have f: "find (\<lambda>p. P (fst p) (snd p)) (List.product DIGITS DIGITS) = Some (a, h)"
    by (simp add: firstUnusablePair_def digitPairs_def combineCell_isl P_def)
  have "find (\<lambda>p. P (fst p) (snd p)) (List.product DIGITS DIGITS) =
     (case find Q DIGITS of None \<Rightarrow> None | Some x \<Rightarrow> map_option (Pair x) (find (P x) DIGITS))"
    unfolding Q_def by (rule find_product)
  with f have fp: "(case find Q DIGITS of None \<Rightarrow> None
                    | Some x \<Rightarrow> map_option (Pair x) (find (P x) DIGITS)) = Some (a, h)"
    by simp
  have a': "find Q DIGITS = Some a" and fh: "find (P a) DIGITS = Some h"
    using fp by (cases "find Q DIGITS"; auto)+
  have inner: "isl (traverse (combineCell odds w1 w2 x) DIGITS) = Q x" for x
    unfolding Q_def P_def by (subst traverse_find) (auto split: option.splits)
  have row: "traverse (combineCell odds w1 w2 a) DIGITS = Inl (projl (combineCell odds w1 w2 a h))"
    using fh unfolding P_def by (subst traverse_find) simp
  have "find (\<lambda>x. isl (traverse (combineCell odds w1 w2 x) DIGITS)) DIGITS = Some a"
    using a' by (simp add: inner)
  then show ?thesis
    unfolding combinedRawOf_def
    by (subst traverse_find) (simp add: row)
qed

lemma computeSquaresAnalysis_checks:
  "computeSquaresAnalysis board odds p w1 w2 =
     (if \<not> isValidDigitArray (homeDigits board) then Inl (MalformedDigitAxis Home)
      else if \<not> isValidDigitArray (awayDigits board) then Inl (MalformedDigitAxis Away)
      else if length (owners board) \<noteq> 10 \<or> list_ex (\<lambda>row. length row \<noteq> 10) (owners board)
      then Inl MalformedBoardShape
      else (case combinedRawOf odds w1 w2 of
              Inl e \<Rightarrow> Inl e
            | Inr c \<Rightarrow> computeSquaresAnalysis board odds p w1 w2))"
  by (simp add: computeSquaresAnalysis_def split: sum.splits)

lemmas odds_ev = gapOdds_def zeroOdds_def createEmptyGrid_def DIGITS_def digitPairs_def
  missingCombinations_def firstUnusablePair_def missingAt_def zeroAt_def lookupOdds_def

lemma scenarioBoard_valid:
  "isValidDigitArray (homeDigits scenarioBoard)" "isValidDigitArray (awayDigits scenarioBoard)"
  "length (owners scenarioBoard) = 10" "\<forall>row \<in> set (owners scenarioBoard). length row = 10"
  by (simp_all add: scenarioBoard_def isValidDigitArray_def ownerRow_def)

lemma gapOdds_missing: "missingCombinations gapOdds = [(0, 0), (0, 1)]"
  by (simp add: odds_ev)

lemma gapOdds_first: "firstUnusablePair gapOdds = Some (0, 0)"
  by (simp add: odds_ev)

lemma zeroOdds_missing: "missingCombinations zeroOdds = [(0, 1)]"
  by (simp add: odds_ev)

lemma zeroOdds_first: "firstUnusablePair zeroOdds = Some (0, 0)"
  by (simp add: odds_ev)


text \<open>
  Claim C4, as stated, fails: with two pairs missing the failure names only the first
  of them, not a list, and a zero quotation that the scan meets before the first missing
  pair makes the analysis fail with \<open>InvalidOdds\<close> instead.
\<close>

theorem analysis_input_failures_counterexample:
  "computeSquaresAnalysis scenarioBoard gapOdds 3 (4 / 5) (1 / 5) = Inl (IncompleteOddsCoverage 0 0)
   \<and> missingCombinations gapOdds = [(0, 0), (0, 1)]
   \<and> computeSquaresAnalysis scenarioBoard zeroOdds 3 (4 / 5) (1 / 5) = Inl InvalidOdds
   \<and> missingCombinations zeroOdds = [(0, 1)]"
proof -
  have g: "combinedRawOf gapOdds (4 / 5) (1 / 5) = Inl (IncompleteOddsCoverage 0 0)"
    using combinedRawOf_first [OF gapOdds_first, of "4 / 5" "1 / 5"]
    by (simp add: combineCell_def odds_ev)
  have z: "combinedRawOf zeroOdds (4 / 5) (1 / 5) = Inl InvalidOdds"
    using combinedRawOf_first [OF zeroOdds_first, of "4 / 5" "1 / 5"]
    by (simp add: combineCell_def odds_ev americanToRawProbability_def)
  have 1: "computeSquaresAnalysis scenarioBoard gapOdds 3 (4 / 5) (1 / 5)
             = Inl (IncompleteOddsCoverage 0 0)"
    using scenarioBoard_valid g by (subst computeSquaresAnalysis_checks) (simp add: list_ex_iff)
  have 2: "computeSquaresAnalysis scenarioBoard zeroOdds 3 (4 / 5) (1 / 5) = Inl InvalidOdds"
    using scenarioBoard_valid z by (subst computeSquaresAnalysis_checks) (simp add: list_ex_iff)
  from 1 2 gapOdds_missing zeroOdds_missing show ?thesis by simp
qed


text \<open>
  Claim C4, amended. The checks run in order and the first that fails decides the
  error: an invalid home axis, then an invalid away axis, give \<open>MalformedDigitAxis\<close>;
  with both axes valid, a grid that is not ten rows of ten cells gives
  \<open>MalformedBoardShape\<close>; with a valid board, when the first digit pair in row-major
  order that is missing or quoted 0 is a missing one, the analysis fails with
  \<open>IncompleteOddsCoverage\<close> naming exactly that pair, the first of the missing
  combinations.
\<close>

theorem analysis_input_failures:
  "(\<not> isValidDigitArray (homeDigits board) \<longrightarrow>
      computeSquaresAnalysis board odds p w1 w2 = Inl (MalformedDigitAxis Home))
   \<and> (isValidDigitArray (homeDigits board) \<and> \<not> isValidDigitArray (awayDigits board) \<longrightarrow>
      computeSquaresAnalysis board odds p w1 w2 = Inl (MalformedDigitAxis Away))
   \<and> (isValidDigitArray (homeDigits board) \<and> isValidDigitArray (awayDigits board)
      \<and> (length (owners board) \<noteq> 10 \<or> (\<exists>row \<in> set (owners board). length row \<noteq> 10)) \<longrightarrow>
      computeSquaresAnalysis board odds p w1 w2 = Inl MalformedBoardShape)
   \<and> (isValidDigitArray (homeDigits board) \<and> isValidDigitArray (awayDigits board)
      \<and> length (owners board) = 10 \<and> (\<forall>row \<in> set (owners board). length row = 10)
      \<and> firstUnusablePair odds = Some (a, h) \<and> missingAt odds (a, h) \<longrightarrow>
      computeSquaresAnalysis board odds p w1 w2 = Inl (IncompleteOddsCoverage a h)
      \<and> (a, h) = hd (missingCombinations odds))"
proof (intro conjI impI)
  show "computeSquaresAnalysis board odds p w1 w2 = Inl (MalformedDigitAxis Home)"
    if "\<not> isValidDigitArray (homeDigits board)"
    using that by (subst computeSquaresAnalysis_checks) simp
  show "computeSquaresAnalysis board odds p w1 w2 = Inl (MalformedDigitAxis Away)"
    if "isValidDigitArray (homeDigits board) \<and> \<not> isValidDigitArray (awayDigits board)"
    using that by (subst computeSquaresAnalysis_checks) simp
  show "computeSquaresAnalysis board odds p w1 w2 = Inl MalformedBoardShape"
    if "isValidDigitArray (homeDigits board) \<and> isValidDigitArray (awayDigits board)
      \<and> (length (owners board) \<noteq> 10 \<or> (\<exists>row \<in> set (owners board). length row \<noteq> 10))"
    using that by (subst computeSquaresAnalysis_checks) (auto simp: list_ex_iff)
  assume d: "isValidDigitArray (homeDigits board) \<and> isValidDigitArray (awayDigits board)
      \<and> length (owners board) = 10 \<and> (\<forall>row \<in> set (owners board). length row = 10)
      \<and> firstUnusablePair odds = Some (a, h) \<and> missingAt odds (a, h)"
  then have "combinedRawOf odds w1 w2 = Inl (IncompleteOddsCoverage a h)"
    using combinedRawOf_first [of odds a h w1 w2] combineCell_missing [of odds a h w1 w2] by simp
  with d show "computeSquaresAnalysis board odds p w1 w2 = Inl (IncompleteOddsCoverage a h)"
    by (subst computeSquaresAnalysis_checks) (auto simp: list_ex_iff)
  from d have f: "find (\<lambda>p. missingAt odds p \<or> zeroAt odds p) digitPairs = Some (a, h)"
    and m: "missingAt odds (a, h)" by (simp_all add: firstUnusablePair_def)
  from f obtain i where i: "i < length digitPairs" "digitPairs ! i = (a, h)"
     "\<forall>j<i. \<not> (missingAt odds (digitPairs ! j) \<or> zeroAt odds (digitPairs ! j))"
    by (auto simp: find_Some_iff)
  have split: "digitPairs = take i digitPairs @ (a, h) # drop (Suc i) digitPairs"
    using i(1,2) by (metis id_take_nth_drop)
  have none: "filter (missingAt odds) (take i digitPairs) = []"
  proof -
    have "\<not> missingAt odds q" if "q \<in> set (take i digitPairs)" for q
    proof -
      from that obtain j where "j < i" "j < length digitPairs" "q = digitPairs ! j"
        by (auto simp: in_set_conv_nth)
      with i(3) show ?thesis by blast
    qed
    then show ?thesis by (simp add: filter_empty_conv)
  qed
  have "missingCombinations odds =
      filter (missingAt odds) (take i digitPairs @ (a, h) # drop (Suc i) digitPairs)"
    unfolding missingCombinations_def using split by simp
  with none m show "(a, h) = hd (missingCombinations odds)" by simp
qed


theorem analysis_input_failures_witness:
  "\<not> isValidDigitArray (homeDigits (scenarioBoard \<lparr> homeDigits := [0, 0, 1, 2, 3, 4, 5, 6, 7, 8] \<rparr>))
   \<and> computeSquaresAnalysis (scenarioBoard \<lparr> homeDigits := [0, 0, 1, 2, 3, 4, 5, 6, 7, 8] \<rparr>)
         gapOdds 3 (4 / 5) (1 / 5) = Inl (MalformedDigitAxis Home)
   \<and> \<not> isValidDigitArray (awayDigits (scenarioBoard \<lparr> awayDigits := [1, 2, 3] \<rparr>))
   \<and> computeSquaresAnalysis (scenarioBoard \<lparr> awayDigits := [1, 2, 3] \<rparr>)
         gapOdds 3 (4 / 5) (1 / 5) = Inl (MalformedDigitAxis Away)
   \<and> length (owners (scenarioBoard \<lparr> owners := [] \<rparr>)) \<noteq> 10
   \<and> computeSquaresAnalysis (scenarioBoard \<lparr> owners := [] \<rparr>)
         gapOdds 3 (4 / 5) (1 / 5) = Inl MalformedBoardShape
   \<and> firstUnusablePair gapOdds = Some (0, 0) \<and> missingAt gapOdds (0, 0)
   \<and> computeSquaresAnalysis scenarioBoard gapOdds 3 (4 / 5) (1 / 5)
         = Inl (IncompleteOddsCoverage 0 0)"
proof -
  have m: "missingAt gapOdds (0, 0)" by (simp add: odds_ev)
  have a: "\<not> isValidDigitArray [0, 0, 1, 2, 3, 4, 5, 6, 7, 8]" "\<not> isValidDigitArray [1, 2, 3]"
    by (simp_all add: isValidDigitArray_def)
  show ?thesis
    using analysis_input_failures
            [of "scenarioBoard \<lparr> homeDigits := [0, 0, 1, 2, 3, 4, 5, 6, 7, 8] \<rparr>" gapOdds 3 "4 / 5" "1 / 5" 0 0]
          analysis_input_failures
            [of "scenarioBoard \<lparr> awayDigits := [1, 2, 3] \<rparr>" gapOdds 3 "4 / 5" "1 / 5" 0 0]
          analysis_input_failures
            [of "scenarioBoard \<lparr> owners := [] \<rparr>" gapOdds 3 "4 / 5" "1 / 5" 0 0]
          analysis_input_failures [of scenarioBoard gapOdds 3 "4 / 5" "1 / 5" 0 0]
          scenarioBoard_valid gapOdds_first m a
    by simp
qed

section \<open>The tokenizer: ragged rows\<close>

declare fullChunks.simps [simp del] leftover.simps [simp del]

lemma fullChunks_short: "length xs < t \<Longrightarrow> fullChunks t xs = []"
  by (simp add: fullChunks.simps)

lemma leftover_short: "length xs < t \<Longrightarrow> leftover t xs = xs"
  by (simp add: leftover.simps)

lemma fullChunks_step: "0 < t \<Longrightarrow> t \<le> length xs \<Longrightarrow> fullChunks t xs = take t xs # fullChunks t (drop t xs)"
  by (subst fullChunks.simps) simp

lemma leftover_step: "0 < t \<Longrightarrow> t \<le> length xs \<Longrightarrow> leftover t xs = leftover t (drop t xs)"
  by (subst leftover.simps) simp

lemma leftover_length: "0 < t \<Longrightarrow> length (leftover t xs) < t"
proof (induction t xs rule: leftover.induct)
  case (1 t xs)
  show ?case
  proof (cases "length xs < t")
    case True
    then show ?thesis by (simp add: leftover_short)
  next
    case False
    with "1.prems" have "leftover t xs = leftover t (drop t xs)" by (simp add: leftover_step)
    with "1.IH" "1.prems" False show ?thesis by simp
  qed
qed

lemma chunks_append:
  "0 < t \<Longrightarrow> fullChunks t (xs @ ys) = fullChunks t xs @ fullChunks t (leftover t xs @ ys)
     \<and> leftover t (xs @ ys) = leftover t (leftover t xs @ ys)"
proof (induction t xs rule: leftover.induct)
  case (1 t xs)
  show ?case
  proof (cases "length xs < t")
    case True
    then show ?thesis by (simp add: leftover_short fullChunks_short)
  next
    case False
    with "1.prems" have ih: "fullChunks t (drop t xs @ ys)
          = fullChunks t (drop t xs) @ fullChunks t (leftover t (drop t xs) @ ys)"
        "leftover t (drop t xs @ ys) = leftover t (leftover t (drop t xs) @ ys)"
      using "1.IH" by simp_all
    from False "1.prems" have a: "fullChunks t (xs @ ys) = take t xs # fullChunks t (drop t xs @ ys)"
      by (subst fullChunks_step) simp_all
    from False "1.prems" have b: "leftover t (xs @ ys) = leftover t (drop t xs @ ys)"
      by (subst leftover_step) simp_all
    from False "1.prems" have c: "fullChunks t xs = take t xs # fullChunks t (drop t xs)"
      "leftover t xs = leftover t (drop t xs)"
      by (simp_all add: fullChunks_step leftover_step)
    from a b c ih show ?thesis by simp
  qed
qed

lemma mergeStep_ragged:
  assumes "ragged t row" "length buf < t"
  shows "mergeStep t (m, toPending buf) row
           = (m @ fullChunks t (buf @ row), toPending (leftover t (buf @ row)))"
proof -
  from assms have r: "row \<noteq> []" "length row < t" "0 < t" by (auto simp: ragged_def)
  show ?thesis
  proof (cases "buf = []")
    case True
    with r show ?thesis
      by (simp add: mergeStep_def toPending_def fullChunks_short leftover_short)
  next
    case False
    show ?thesis
    proof (cases "length (buf @ row) < t")
      case True
      with False r assms(2) show ?thesis
        by (simp add: mergeStep_def toPending_def fullChunks_short leftover_short)
    next
      case ge: False
      from assms(2) r have lt: "length (drop t (buf @ row)) < t" by simp
      from ge r have fc: "fullChunks t (buf @ row) = [take t (buf @ row)]"
        using lt by (subst fullChunks_step) (simp_all add: fullChunks_short del: drop_append take_append)
      from ge r have lo: "leftover t (buf @ row) = drop t (buf @ row)"
        using lt by (subst leftover_step) (simp_all add: leftover_short del: drop_append take_append)
      from False ge r assms(2) show ?thesis
        unfolding fc lo
        by (auto simp: mergeStep_def toPending_def slice_def Let_def)
    qed
  qed
qed


lemma mergeStep_full:
  assumes "length F = t"
  shows "mergeStep t (m, toPending buf) F = (m @ (if buf = [] then [] else [buf]) @ [F], None)"
  using assms by (simp add: mergeStep_def toPending_def)

lemma foldl_ragged:
  assumes "list_all (ragged t) R" "length buf < t"
  shows "foldl (mergeStep t) (m, toPending buf) R
           = (m @ fullChunks t (buf @ concat R), toPending (leftover t (buf @ concat R)))"
  using assms
proof (induction R arbitrary: m buf)
  case Nil
  then show ?case by (simp add: fullChunks_short leftover_short)
next
  case (Cons row R)
  from Cons.prems have r: "ragged t row" and rest: "list_all (ragged t) R" by simp_all
  from Cons.prems(2) have t: "0 < t" by simp
  have l: "length (leftover t (buf @ row)) < t" using t by (rule leftover_length)
  have "foldl (mergeStep t) (m, toPending buf) (row # R)
      = foldl (mergeStep t) (m @ fullChunks t (buf @ row), toPending (leftover t (buf @ row))) R"
    by (simp add: mergeStep_ragged [OF r Cons.prems(2)])
  also have "\<dots> = ((m @ fullChunks t (buf @ row)) @ fullChunks t (leftover t (buf @ row) @ concat R),
                  toPending (leftover t (leftover t (buf @ row) @ concat R)))"
    by (rule Cons.IH [OF rest l])
  also have "\<dots> = (m @ fullChunks t (buf @ concat (row # R)),
                  toPending (leftover t (buf @ concat (row # R))))"
    using chunks_append [OF t, of "buf @ row" "concat R"] by simp
  finally show ?case .
qed

lemma mergeStep_prefix:
  "mergeStep t (m, p) row = (m @ fst (mergeStep t ([], p) row), snd (mergeStep t ([], p) row))"
  by (simp add: mergeStep_def Let_def split: option.splits)

lemma foldl_prefix:
  "foldl (mergeStep t) (m, p) rows
     = (m @ fst (foldl (mergeStep t) ([], p) rows), snd (foldl (mergeStep t) ([], p) rows))"
proof (induction rows arbitrary: m p)
  case Nil
  then show ?case by simp
next
  case (Cons row rows)
  obtain m1 p1 where s1: "mergeStep t ([], p) row = (m1, p1)" by (cases "mergeStep t ([], p) row")
  then have s2: "mergeStep t (m, p) row = (m @ m1, p1)"
    by (subst mergeStep_prefix) simp
  show ?case
    by (simp add: s1 s2) (metis Cons.IH append.assoc fst_conv snd_conv)
qed

lemma mergeRows_prefix:
  "(case foldl (mergeStep t) (m, None) rows of
      (mergedRows, pending) \<Rightarrow>
        (case pending of None \<Rightarrow> mergedRows
         | Some p \<Rightarrow> if someCellFilled p then mergedRows @ [p] else mergedRows))
   = m @ mergeRows t rows"
  by (subst foldl_prefix) (simp add: mergeRows_def split: prod.splits option.splits)

lemma targetColumnsOf_Max: "targetColumnsOf rows = Max (insert 1 (length ` set rows))"
proof -
  have "fold max (map length rows) 1 = Max (set (1 # map length rows))"
    by (simp only: Max.set_eq_fold)
  then show ?thesis by (simp add: targetColumnsOf_def)
qed

lemma foldl_ragged_start:
  assumes "list_all (ragged t) R"
  shows "foldl (mergeStep t) ([], None) R
           = (fullChunks t (concat R), toPending (leftover t (concat R)))"
proof (cases "t = 0")
  case True
  with assms have "R = []" by (cases R) (auto simp: ragged_def)
  with True show ?thesis by (simp add: fullChunks.simps leftover.simps toPending_def)
next
  case False
  then have "foldl (mergeStep t) ([], toPending []) R
          = ([] @ fullChunks t ([] @ concat R), toPending (leftover t ([] @ concat R)))"
    using assms by (intro foldl_ragged) simp_all
  then show ?thesis by (simp add: toPending_def)
qed


text \<open>
  Claim C3, as stated, fails: the width that decides which rows are ragged is not the
  modal column count. In four lines of 3, 3, 3 and 4 cells the modal count is 3, yet the
  rows of three cells are treated as ragged and merged, because the width is 4.
\<close>

theorem ragged_rows_merge_counterexample:
  "map (\<lambda>line. map normalizeCell (parseCsvLine line 44)) (linesOf (cleanText csvText)) = csvRows
   \<and> modalColumnCount csvRows = 3
   \<and> length (csvRows ! 0) = 3
   \<and> targetColumnsOf csvRows = 4
   \<and> parseRows csvText =
       [[str ''a'', str ''b'', str ''c'', str ''d''], [str ''e'', str ''f'', str ''g'', str ''h''],
        [str ''i''], [str ''j'', str ''k'', str ''l'', str ''m'']]"
  by (simp add: csvText_def csvRows_def ev parseRows_def parseCsvLine_def modalColumnCount_def
      targetColumnsOf_def mergeRows_def mergeStep_def)


text \<open>
  Claim C3, amended. The width is the maximum cell count of the split rows (at least
  1). A run of consecutive ragged rows is concatenated and cut every width cells, each
  full piece flushed as one reconstructed row; what is left over when a row of full
  width arrives is flushed as it is before that row, and what is left over at the end is
  flushed as it is when it has a non-empty cell.
\<close>

theorem ragged_rows_merge:
  "targetColumnsOf rows = Max (insert 1 (length ` set rows))
   \<and> (list_all (ragged t) R \<and> length F = t \<longrightarrow>
        mergeRows t (R @ F # rest) = chunks t (concat R) @ F # mergeRows t rest)
   \<and> (list_all (ragged t) R \<longrightarrow>
        mergeRows t R = fullChunks t (concat R)
          @ (if someCellFilled (leftover t (concat R)) then [leftover t (concat R)] else []))"
proof (intro conjI impI)
  show "targetColumnsOf rows = Max (insert 1 (length ` set rows))"
    by (rule targetColumnsOf_Max)
next
  assume a: "list_all (ragged t) R \<and> length F = t"
  then have fr: "foldl (mergeStep t) ([], None) R
           = (fullChunks t (concat R), toPending (leftover t (concat R)))"
    by (simp add: foldl_ragged_start)
  from a have st: "mergeStep t (fullChunks t (concat R), toPending (leftover t (concat R))) F
      = (chunks t (concat R) @ [F], None)"
    by (simp add: mergeStep_full chunks_def)
  have "foldl (mergeStep t) ([], None) (R @ F # rest)
      = foldl (mergeStep t) (chunks t (concat R) @ [F], None) rest"
    using fr st by simp
  then show "mergeRows t (R @ F # rest) = chunks t (concat R) @ F # mergeRows t rest"
    using mergeRows_prefix [of t "chunks t (concat R) @ [F]" rest]
    by (simp add: mergeRows_def [of t "R @ F # rest"])
next
  assume a: "list_all (ragged t) R"
  then have fr: "foldl (mergeStep t) ([], None) R
           = (fullChunks t (concat R), toPending (leftover t (concat R)))"
    by (simp add: foldl_ragged_start)
  then show "mergeRows t R = fullChunks t (concat R)
          @ (if someCellFilled (leftover t (concat R)) then [leftover t (concat R)] else [])"
    by (auto simp: mergeRows_def toPending_def someCellFilled_def split: if_splits)
qed

theorem ragged_rows_merge_witness:
  "list_all (ragged 4) (take 3 csvRows) \<and> length (csvRows ! 3) = 4
   \<and> mergeRows 4 (take 3 csvRows @ csvRows ! 3 # [])
        = chunks 4 (concat (take 3 csvRows)) @ csvRows ! 3 # mergeRows 4 []
   \<and> mergeRows 4 (take 3 csvRows)
        = fullChunks 4 (concat (take 3 csvRows))
          @ (if someCellFilled (leftover 4 (concat (take 3 csvRows)))
             then [leftover 4 (concat (take 3 csvRows))] else [])"
proof -
  have h: "list_all (ragged 4) (take 3 csvRows)" "length (csvRows ! 3) = 4"
    by (simp_all add: csvRows_def ragged_def)
  from h ragged_rows_merge [of csvRows 4 "take 3 csvRows" "csvRows ! 3" "[]"]
  show ?thesis by blast
qed


end
